theory Spec2Isabelle
  imports Main "HOL-Library.AList" "HOL-Library.Multiset" "HOL-Library.Sublist" "HOL-Library.Word"
begin

section \<open>Python values used by huffman.py\<close>

text \<open>
  A Python \<open>str\<close> is a sequence of Unicode code points; a character is a \<open>str\<close> of
  length one. Code points are natural numbers, so iterating over a text yields the
  one-element strings \<open>[c]\<close>. \<open>str ''ab''\<close> writes a literal.
\<close>

type_synonym pystr = "nat list"

abbreviation str :: "string \<Rightarrow> pystr" where
  "str s \<equiv> map of_char s"

type_synonym byte = "8 word"

text \<open>The exceptions that the program and the library calls it makes can raise.\<close>

datatype error =
    IndexError
  | KeyError pystr
  | TypeError
  | AttributeError
  | OverflowError
  | ValueError string
  | UnicodeEncodeError
  | UnicodeDecodeError
  | JSONDecodeError

text \<open>
  A Python \<open>dict\<close> keeps its keys in insertion order; assigning to a key that is present
  replaces the value in place, assigning to a new key appends it. This is
  \<^const>\<open>AList.update\<close> on an association list; \<^const>\<open>map_of\<close> is the lookup.
\<close>

type_synonym ('k, 'v) dict = "('k \<times> 'v) list"

section \<open>class Node\<close>

text \<open>
  \<open>Node(freq, symbol=None, left=None, right=None)\<close>. The field \<open>nid\<close> is the object's
  identity \<open>id(self)\<close>, which \<open>__lt__\<close> reads; it is fixed when the object is created.
\<close>

datatype node = Node (nid: nat) (freq: int) (symbol: "pystr option")
  (left: "node option") (right: "node option")

definition node_lt :: "node \<Rightarrow> node \<Rightarrow> bool" where
  "node_lt self other =
     (if freq self = freq other then nid self < nid other
      else freq self < freq other)"

section \<open>build_frequency_map\<close>

fun build_frequency_map_loop :: "pystr \<Rightarrow> (pystr, int) dict \<Rightarrow> (pystr, int) dict" where
  "build_frequency_map_loop [] fm = fm"
| "build_frequency_map_loop (ch # text) fm =
     build_frequency_map_loop text
       (AList.update [ch] ((case map_of fm [ch] of None \<Rightarrow> 0 | Some n \<Rightarrow> n) + 1) fm)"

definition build_frequency_map :: "pystr \<Rightarrow> (pystr, int) dict" where
  "build_frequency_map text = build_frequency_map_loop text []"

section \<open>heapq\<close>

text \<open>
  \<open>heapq.heappush\<close> and \<open>heapq.heappop\<close> of the standard library, on a list, comparing
  items with \<open>lt\<close> (the items' \<open>__lt__\<close>). The positions they read are inside the list
  whenever \<open>pos\<close> is.
\<close>

function siftdown_loop ::
  "('a \<Rightarrow> 'a \<Rightarrow> bool) \<Rightarrow> 'a list \<Rightarrow> 'a \<Rightarrow> nat \<Rightarrow> nat \<Rightarrow> 'a list" where
  "siftdown_loop lt heap newitem startpos pos =
     (if pos > startpos then
        (if lt newitem (heap ! ((pos - 1) div 2))
         then siftdown_loop lt (heap[pos := heap ! ((pos - 1) div 2)]) newitem startpos
                ((pos - 1) div 2)
         else heap[pos := newitem])
      else heap[pos := newitem])"
  by pat_completeness auto
termination
  by (relation "measure (\<lambda>(lt, heap, newitem, startpos, pos). pos)") auto

definition siftdown :: "('a \<Rightarrow> 'a \<Rightarrow> bool) \<Rightarrow> 'a list \<Rightarrow> nat \<Rightarrow> nat \<Rightarrow> 'a list" where
  "siftdown lt heap startpos pos = siftdown_loop lt heap (heap ! pos) startpos pos"

function siftup_loop ::
  "('a \<Rightarrow> 'a \<Rightarrow> bool) \<Rightarrow> 'a list \<Rightarrow> nat \<Rightarrow> nat \<Rightarrow> nat \<Rightarrow> 'a list \<times> nat" where
  "siftup_loop lt heap endpos pos childpos =
     (if childpos < endpos then
        (if childpos + 1 < endpos \<and> \<not> lt (heap ! childpos) (heap ! (childpos + 1))
         then siftup_loop lt (heap[pos := heap ! (childpos + 1)]) endpos
                (childpos + 1) (2 * (childpos + 1) + 1)
         else siftup_loop lt (heap[pos := heap ! childpos]) endpos
                childpos (2 * childpos + 1))
      else (heap, pos))"
  by pat_completeness auto
termination
  by (relation "measure (\<lambda>(lt, heap, endpos, pos, childpos). endpos - childpos)") auto

definition siftup :: "('a \<Rightarrow> 'a \<Rightarrow> bool) \<Rightarrow> 'a list \<Rightarrow> nat \<Rightarrow> 'a list" where
  "siftup lt heap pos =
     (case siftup_loop lt heap (length heap) pos (2 * pos + 1) of
        (heap', pos') \<Rightarrow> siftdown lt (heap'[pos' := heap ! pos]) pos pos')"

definition heappush :: "('a \<Rightarrow> 'a \<Rightarrow> bool) \<Rightarrow> 'a list \<Rightarrow> 'a \<Rightarrow> 'a list" where
  "heappush lt heap item = siftdown lt (heap @ [item]) 0 (length heap)"

text \<open>\<open>heappop\<close> raises IndexError on an empty heap: \<open>None\<close>.\<close>

definition heappop :: "('a \<Rightarrow> 'a \<Rightarrow> bool) \<Rightarrow> 'a list \<Rightarrow> ('a \<times> 'a list) option" where
  "heappop lt heap =
     (if heap = [] then None
      else if butlast heap \<noteq> []
        then Some (hd heap, siftup lt ((butlast heap)[0 := last heap]) 0)
        else Some (last heap, butlast heap))"

subsection \<open>The heap operations keep the items\<close>

declare siftdown_loop.simps [simp del] siftup_loop.simps [simp del]

lemma length_siftdown_loop [simp]:
  "length (siftdown_loop lt heap newitem startpos pos) = length heap"
  by (induction lt heap newitem startpos pos rule: siftdown_loop.induct)
     (subst siftdown_loop.simps, simp)

lemma mset_update_move:
  assumes "p < length h" "q < length h" "p \<noteq> q"
  shows "mset (h[p := h ! q, q := x]) = mset (h[p := x])"
proof -
  have "mset ((h[p := x])[q := (h[p := x]) ! p, p := (h[p := x]) ! q]) = mset (h[p := x])"
    by (rule mset_swap) (use assms in simp_all)
  moreover have "(h[p := x])[q := (h[p := x]) ! p, p := (h[p := x]) ! q] = h[p := h ! q, q := x]"
    using assms by (simp add: list_update_swap[of p q])
  ultimately show ?thesis by simp
qed

lemma mset_siftdown_loop:
  "pos < length heap \<Longrightarrow>
   mset (siftdown_loop lt heap newitem startpos pos) = mset (heap[pos := newitem])"
proof (induction lt heap newitem startpos pos rule: siftdown_loop.induct)
  case (1 lt heap newitem startpos pos)
  show ?case
  proof (cases "pos > startpos \<and> lt newitem (heap ! ((pos - 1) div 2))")
    case True
    then have lt: "(pos - 1) div 2 < pos" by auto
    have "mset (siftdown_loop lt heap newitem startpos pos) =
          mset (heap[pos := heap ! ((pos - 1) div 2), (pos - 1) div 2 := newitem])"
      using True 1 lt by (subst siftdown_loop.simps) simp
    also have "\<dots> = mset (heap[pos := newitem])"
      using lt 1(2) by (intro mset_update_move) auto
    finally show ?thesis .
  next
    case False
    then show ?thesis by (subst siftdown_loop.simps) auto
  qed
qed

lemma length_siftdown [simp]: "length (siftdown lt heap startpos pos) = length heap"
  by (simp add: siftdown_def)

lemma mset_siftdown:
  "pos < length heap \<Longrightarrow> mset (siftdown lt heap startpos pos) = mset heap"
  by (simp add: siftdown_def mset_siftdown_loop)

lemma siftup_loop_inv:
  "siftup_loop lt heap endpos pos childpos = (heap', pos') \<Longrightarrow>
   endpos = length heap \<Longrightarrow> pos < length heap \<Longrightarrow> pos < childpos \<Longrightarrow>
   length heap' = length heap \<and> pos' < length heap \<and>
   mset (heap'[pos' := x]) = mset (heap[pos := x])"
proof (induction lt heap endpos pos childpos arbitrary: heap' pos' rule: siftup_loop.induct)
  case (1 lt heap endpos pos childpos)
  note unf = siftup_loop.simps[of lt heap endpos pos childpos]
  show ?case
  proof (cases "childpos < endpos")
    case False
    with unf have "siftup_loop lt heap endpos pos childpos = (heap, pos)" by simp
    with 1(3) have "heap' = heap" "pos' = pos" by simp_all
    with 1(5) show ?thesis by simp
  next
    case True
    show ?thesis
    proof (cases "childpos + 1 < endpos \<and> \<not> lt (heap ! childpos) (heap ! (childpos + 1))")
      case c: True
      let ?h = "heap[pos := heap ! (childpos + 1)]"
      from unf True c have "siftup_loop lt heap endpos pos childpos =
          siftup_loop lt ?h endpos (childpos + 1) (2 * (childpos + 1) + 1)"
        by simp
      with 1(3) have eq: "siftup_loop lt ?h endpos (childpos + 1) (2 * (childpos + 1) + 1) = (heap', pos')"
        by simp
      have ih: "length heap' = length ?h \<and> pos' < length ?h \<and>
            mset (heap'[pos' := x]) = mset (?h[childpos + 1 := x])"
        using 1(4) c by (intro 1(1)[OF True c eq]) simp_all
      have "mset (?h[childpos + 1 := x]) = mset (heap[pos := x])"
        using 1(4,5,6) c by (intro mset_update_move) simp_all
      with ih show ?thesis by simp
    next
      case c: False
      let ?h = "heap[pos := heap ! childpos]"
      from unf True c have "siftup_loop lt heap endpos pos childpos =
          siftup_loop lt ?h endpos childpos (2 * childpos + 1)"
        by auto
      with 1(3) have eq: "siftup_loop lt ?h endpos childpos (2 * childpos + 1) = (heap', pos')"
        by simp
      have ih: "length heap' = length ?h \<and> pos' < length ?h \<and>
            mset (heap'[pos' := x]) = mset (?h[childpos := x])"
        using 1(4) True by (intro 1(2)[OF True c eq]) simp_all
      have "mset (?h[childpos := x]) = mset (heap[pos := x])"
        using 1(4,5,6) True by (intro mset_update_move) simp_all
      with ih show ?thesis by simp
    qed
  qed
qed

lemma mset_siftup:
  assumes "pos < length heap"
  shows "mset (siftup lt heap pos) = mset heap"
proof -
  obtain heap' pos' where eq: "siftup_loop lt heap (length heap) pos (2 * pos + 1) = (heap', pos')"
    by (cases "siftup_loop lt heap (length heap) pos (2 * pos + 1)")
  from siftup_loop_inv[OF eq refl assms, of "heap ! pos"]
  have *: "length heap' = length heap" "pos' < length heap"
      "mset (heap'[pos' := heap ! pos]) = mset heap" by (simp_all)
  have "siftup lt heap pos = siftdown lt (heap'[pos' := heap ! pos]) pos pos'"
    unfolding siftup_def eq by simp
  then show ?thesis using * by (simp add: mset_siftdown)
qed

lemma mset_heappush [simp]: "mset (heappush lt heap item) = add_mset item (mset heap)"
  by (simp add: heappush_def mset_siftdown)

lemma heappop_snoc:
  "heappop lt (ys @ [y]) =
     (if ys \<noteq> [] then Some (hd ys, siftup lt (ys[0 := y]) 0) else Some (y, []))"
  by (simp add: heappop_def)

lemma mset_heappop:
  assumes "heappop lt heap = Some (a, heap')"
  shows "mset heap = add_mset a (mset heap')"
proof (cases heap rule: rev_cases)
  case Nil
  with assms show ?thesis by (simp add: heappop_def)
next
  case (snoc ys y)
  show ?thesis
  proof (cases ys)
    case Nil
    with snoc assms show ?thesis by (simp add: heappop_def)
  next
    case (Cons b bs)
    with snoc assms heappop_snoc[of lt "b # bs" y]
    have a: "a = b" "heap' = siftup lt (y # bs) 0"
      by simp_all
    have "mset heap' = mset (y # bs)" unfolding a by (rule mset_siftup) simp
    then show ?thesis using a(1) snoc Cons by simp
  qed
qed

lemma length_heappush [simp]: "length (heappush lt heap item) = Suc (length heap)"
  by (simp add: heappush_def)

lemma length_heappop:
  assumes "heappop lt heap = Some (a, heap')"
  shows "length heap = Suc (length heap')"
proof -
  have "size (mset heap) = size (add_mset a (mset heap'))"
    using mset_heappop[OF assms] by simp
  then show ?thesis by simp
qed

lemma heappop_None [simp]: "heappop lt heap = None \<longleftrightarrow> heap = []"
  by (simp add: heappop_def)


section \<open>build_huffman_tree\<close>

text \<open>
  The function creates Node objects; \<open>ident n\<close> is the identity (\<open>id()\<close>) of the
  \<open>n\<close>-th Node it creates, counted from 0. Python fixes it when the object is allocated,
  and the program has no control over it. The frequency table is iterated in the
  dict's insertion order.
\<close>

fun push_leaves ::
  "(nat \<Rightarrow> nat) \<Rightarrow> (pystr, int) dict \<Rightarrow> node list \<Rightarrow> nat \<Rightarrow> node list \<times> nat" where
  "push_leaves ident [] heap n = (heap, n)"
| "push_leaves ident ((symb, f) # items) heap n =
     push_leaves ident items
       (heappush node_lt heap (Node (ident n) f (Some symb) None None)) (Suc n)"

function merge_loop :: "(nat \<Rightarrow> nat) \<Rightarrow> node list \<Rightarrow> nat \<Rightarrow> error + node list" where
  "merge_loop ident heap n =
     (if length heap > 1 then
        (case heappop node_lt heap of
           None \<Rightarrow> Inl IndexError
         | Some (a, heap1) \<Rightarrow>
             (case heappop node_lt heap1 of
                None \<Rightarrow> Inl IndexError
              | Some (b, heap2) \<Rightarrow>
                  merge_loop ident
                    (heappush node_lt heap2
                       (Node (ident n) (freq a + freq b) None (Some a) (Some b)))
                    (Suc n)))
      else Inr heap)"
  by pat_completeness auto
termination
proof (relation "measure (\<lambda>(ident, heap, n). length heap)")
  show "wf (measure (\<lambda>(ident, heap, n). length heap))" by simp
next
  fix ident :: "nat \<Rightarrow> nat" and heap :: "node list" and n :: nat
    and x2 x y heap1 x2a xa ya
  assume "heappop node_lt heap = Some x2" "(x, y) = x2" "heappop node_lt y = Some x2a"
    "(xa, ya) = x2a"
  then have "length heap = Suc (length y)" "length y = Suc (length ya)"
    by (auto dest: length_heappop)
  then show "((ident, heappush node_lt ya (Node (ident n) (freq x + freq xa) None (Some x) (Some xa)), Suc n),
         ident, heap, n) \<in> measure (\<lambda>(ident, heap, n). length heap)"
    by simp
qed

declare merge_loop.simps [simp del]

text \<open>
  In the one-symbol case the dummy leaf \<open>Node(0, symbol="")\<close> is an argument of the
  parent's constructor call, so it is created before the parent.
\<close>

definition build_huffman_tree ::
  "(nat \<Rightarrow> nat) \<Rightarrow> (pystr, int) dict \<Rightarrow> error + node option" where
  "build_huffman_tree ident freq_map =
     (case push_leaves ident freq_map [] 0 of
        (heap, n) \<Rightarrow>
          (case (if length heap = 1 then
                   (case heappop node_lt heap of
                      None \<Rightarrow> Inl IndexError
                    | Some (sole, heap1) \<Rightarrow>
                        Inr (heappush node_lt heap1
                               (Node (ident (Suc n)) (freq sole) None (Some sole)
                                  (Some (Node (ident n) 0 (Some []) None None))),
                             Suc (Suc n)))
                 else Inr (heap, n)) of
             Inl e \<Rightarrow> Inl e
           | Inr (heap2, n2) \<Rightarrow>
               (case merge_loop ident heap2 n2 of
                  Inl e \<Rightarrow> Inl e
                | Inr heap3 \<Rightarrow> Inr (if heap3 \<noteq> [] then Some (heap3 ! 0) else None))))"

section \<open>generate_codes\<close>

text \<open>
  \<open>dfs\<close> writes into the dict \<open>codes\<close> of the enclosing call; here the dict is passed
  in and returned. \<open>path or '0'\<close> is \<open>'0'\<close> when \<open>path\<close> is the empty string.
\<close>

fun dfs :: "node option \<Rightarrow> pystr \<Rightarrow> (pystr, pystr) dict \<Rightarrow> (pystr, pystr) dict" where
  "dfs None path codes = codes"
| "dfs (Some (Node i f s l r)) path codes =
     (if s \<noteq> None \<and> (l = None \<and> r = None)
      then AList.update (the s) (if path = [] then str ''0'' else path) codes
      else dfs r (path @ str ''1'') (dfs l (path @ str ''0'') codes))"

definition generate_codes :: "node option \<Rightarrow> (pystr, pystr) dict" where
  "generate_codes root = dfs root [] []"

section \<open>encode_text\<close>

text \<open>\<open>codes[ch]\<close> raises KeyError when the character has no code.\<close>

fun encode_text_loop :: "pystr \<Rightarrow> (pystr, pystr) dict \<Rightarrow> pystr list \<Rightarrow> error + pystr list" where
  "encode_text_loop [] codes bits = Inr bits"
| "encode_text_loop (ch # text) codes bits =
     (case map_of codes [ch] of
        None \<Rightarrow> Inl (KeyError [ch])
      | Some code \<Rightarrow> encode_text_loop text codes (bits @ [code]))"

definition encode_text :: "pystr \<Rightarrow> (pystr, pystr) dict \<Rightarrow> error + pystr" where
  "encode_text text codes =
     (case encode_text_loop text codes [] of
        Inl e \<Rightarrow> Inl e
      | Inr bits \<Rightarrow> Inr (concat bits))"

section \<open>bits_to_bytes and bytes_to_bits\<close>

text \<open>
  \<open>int(byte, 2)\<close> on a non-empty string of the digits \<open>'0'\<close> and \<open>'1'\<close>, the only
  strings that the codes of \<open>generate_codes\<close> and the padding give. On any other string
  the model has no value (\<open>None\<close>): Python raises ValueError on most of them and reads
  some further integer syntax (a sign, a \<open>0b\<close> prefix, underscores, blanks).
\<close>

definition int_base2 :: "pystr \<Rightarrow> nat option" where
  "int_base2 s =
     (if s \<noteq> [] \<and> (\<forall>c \<in> set s. c = 48 \<or> c = 49)
      then Some (foldl (\<lambda>acc c. 2 * acc + (c - 48)) 0 s)
      else None)"

text \<open>\<open>bytearray.append\<close> raises ValueError unless the value is in \<open>range(256)\<close>.\<close>

function bits_to_bytes_loop :: "pystr \<Rightarrow> nat \<Rightarrow> error + byte list" where
  "bits_to_bytes_loop bitstring_padded i =
     (if i < length bitstring_padded then
        (case int_base2 (take 8 (drop i bitstring_padded)) of
           None \<Rightarrow> Inl (ValueError ''invalid literal for int() with base 2'')
         | Some v \<Rightarrow>
             if v < 256 then
               (case bits_to_bytes_loop bitstring_padded (i + 8) of
                  Inl e \<Rightarrow> Inl e
                | Inr b \<Rightarrow> Inr (of_nat v # b))
             else Inl (ValueError ''byte must be in range(0, 256)''))
      else Inr [])"
  by pat_completeness auto
termination
  by (relation "measure (\<lambda>(s, i). length s - i)") auto

declare bits_to_bytes_loop.simps [simp del]

definition bits_to_bytes :: "pystr \<Rightarrow> error + (byte list \<times> nat)" where
  "bits_to_bytes bitstring =
     (let padding = (8 - length bitstring mod 8) mod 8;
          bitstring_padded = bitstring @ replicate padding 48
      in case bits_to_bytes_loop bitstring_padded 0 of
           Inl e \<Rightarrow> Inl e
         | Inr b \<Rightarrow> Inr (b, padding))"

text \<open>\<open>f'{byte:08b}'\<close>: the eight binary digits of the byte, most significant first.\<close>

definition format_08b :: "byte \<Rightarrow> pystr" where
  "format_08b byte = map (\<lambda>i. 48 + (unat byte div 2 ^ i) mod 2) [7, 6, 5, 4, 3, 2, 1, 0]"

definition bytes_to_bits :: "byte list \<Rightarrow> pystr" where
  "bytes_to_bits b = concat (map format_08b b)"

section \<open>JSON values\<close>

text \<open>
  What \<open>json.loads\<close> returns: \<open>None\<close>, a bool, an int, a float, a str, a list or a
  dict with str keys. A float is kept as the decimal number \<open>m * 10 ^ e\<close> that its text
  denotes (or as NaN or an infinity); the program only ever tests a float for being zero.
\<close>

datatype pyfloat = NaN | Infinity bool | Decimal bool nat int

datatype json =
    JNull
  | JBool bool
  | JInt int
  | JFloat pyfloat
  | JStr pystr
  | JArr "json list"
  | JObj "(pystr \<times> json) list"

text \<open>
  Python converts the decimal text to the nearest double, ties to even: the result is
  \<open>0.0\<close> exactly when the number is at most \<open>2 ^ -1075\<close> in absolute value.
\<close>

fun float_is_zero :: "pyfloat \<Rightarrow> bool" where
  "float_is_zero NaN = False"
| "float_is_zero (Infinity neg) = False"
| "float_is_zero (Decimal neg m e) =
     (m = 0 \<or> (e < 0 \<and> m * 2 ^ 1075 \<le> 10 ^ nat (- e)))"

text \<open>The truth value of an object, as \<open>if padding:\<close> tests it.\<close>

fun truthy :: "json \<Rightarrow> bool" where
  "truthy JNull = False"
| "truthy (JBool b) = b"
| "truthy (JInt i) = (i \<noteq> 0)"
| "truthy (JFloat x) = (\<not> float_is_zero x)"
| "truthy (JStr s) = (s \<noteq> [])"
| "truthy (JArr xs) = (xs \<noteq> [])"
| "truthy (JObj items) = (items \<noteq> [])"

section \<open>decode_bits_to_text\<close>

text \<open>
  The slice \<open>s[:stop]\<close> for an int \<open>stop\<close>: a negative \<open>stop\<close> counts from the end, and
  a bound outside the string is clipped.
\<close>

definition slice_to :: "'a list \<Rightarrow> int \<Rightarrow> 'a list" where
  "slice_to s stop =
     (if stop < 0 then take (nat (int (length s) + stop)) s else take (nat stop) s)"

text \<open>
  \<open>if padding: bits = bits[:-padding]\<close>. The header's padding is whatever JSON value the
  file holds. \<open>-padding\<close> is an int for an int and for a bool (\<open>-True\<close> is \<open>-1\<close>); for a
  float the slice raises TypeError, and for a str, list or dict the negation does.
\<close>

definition strip_padding :: "pystr \<Rightarrow> json \<Rightarrow> error + pystr" where
  "strip_padding bits padding =
     (if truthy padding then
        (case padding of
           JInt p \<Rightarrow> Inr (slice_to bits (- p))
         | JBool b \<Rightarrow> Inr (slice_to bits (- 1))
         | _ \<Rightarrow> Inl TypeError)
      else Inr bits)"

text \<open>
  \<open>rev = {v: k for k, v in codes.items()}\<close>: a later item with the same value replaces
  an earlier one; a list or a dict as value is unhashable (TypeError). Keys of \<open>rev\<close> are
  compared here as JSON values; Python also identifies numbers of different types
  (\<open>1\<close>, \<open>1.0\<close>, \<open>True\<close>), which no lookup can see, since \<open>rev\<close> is only ever asked
  for a str.
\<close>

fun build_rev :: "(pystr \<times> json) list \<Rightarrow> (json, pystr) dict \<Rightarrow> error + (json, pystr) dict" where
  "build_rev [] revd = Inr revd"
| "build_rev ((k, v) # items) revd =
     (case v of
        JArr xs \<Rightarrow> Inl TypeError
      | JObj kvs \<Rightarrow> Inl TypeError
      | _ \<Rightarrow> build_rev items (AList.update v k revd))"

fun decode_loop ::
  "pystr \<Rightarrow> (json, pystr) dict \<Rightarrow> pystr \<Rightarrow> pystr list \<Rightarrow> pystr \<times> pystr list" where
  "decode_loop [] revd cur out_chars = (cur, out_chars)"
| "decode_loop (b # bits) revd cur out_chars =
     (case map_of revd (JStr (cur @ [b])) of
        Some k \<Rightarrow> decode_loop bits revd [] (out_chars @ [k])
      | None \<Rightarrow> decode_loop bits revd (cur @ [b]) out_chars)"

text \<open>\<open>codes.items()\<close> raises AttributeError unless \<open>codes\<close> is a dict.\<close>

definition decode_bits_to_text :: "pystr \<Rightarrow> json \<Rightarrow> json \<Rightarrow> error + pystr" where
  "decode_bits_to_text bits codes padding =
     (case strip_padding bits padding of
        Inl e \<Rightarrow> Inl e
      | Inr bits1 \<Rightarrow>
          (case codes of
             JObj items \<Rightarrow>
               (case build_rev items [] of
                  Inl e \<Rightarrow> Inl e
                | Inr revd \<Rightarrow>
                    (case decode_loop bits1 revd [] [] of
                       (cur, out_chars) \<Rightarrow>
                         if cur \<noteq> []
                         then Inl (ValueError ''Decoding error: leftover bits after decoding'')
                         else Inr (concat out_chars)))
           | _ \<Rightarrow> Inl AttributeError))"

section \<open>str.encode('utf-8') and bytes.decode('utf-8')\<close>

text \<open>
  \<open>encode\<close> raises UnicodeEncodeError on a surrogate (\<open>U+D800\<close> to \<open>U+DFFF\<close>); a Python
  \<open>str\<close> holds no number from \<open>0x110000\<close> on, and the model has no bytes for one.
\<close>

definition utf8_encode_char :: "nat \<Rightarrow> byte list option" where
  "utf8_encode_char c =
     (if c < 0x80 then Some [of_nat c]
      else if c < 0x800 then
        Some [of_nat (0xC0 + c div 0x40), of_nat (0x80 + c mod 0x40)]
      else if c < 0x10000 then
        (if 0xD800 \<le> c \<and> c \<le> 0xDFFF then None
         else Some [of_nat (0xE0 + c div 0x1000), of_nat (0x80 + c div 0x40 mod 0x40),
                    of_nat (0x80 + c mod 0x40)])
      else if c < 0x110000 then
        Some [of_nat (0xF0 + c div 0x40000), of_nat (0x80 + c div 0x1000 mod 0x40),
              of_nat (0x80 + c div 0x40 mod 0x40), of_nat (0x80 + c mod 0x40)]
      else None)"

fun utf8_encode :: "pystr \<Rightarrow> error + byte list" where
  "utf8_encode [] = Inr []"
| "utf8_encode (c # s) =
     (case utf8_encode_char c of
        None \<Rightarrow> Inl UnicodeEncodeError
      | Some bs \<Rightarrow> (case utf8_encode s of Inl e \<Rightarrow> Inl e | Inr r \<Rightarrow> Inr (bs @ r)))"

text \<open>
  The strict decoder: a sequence is refused (UnicodeDecodeError, here \<open>None\<close>) when it is
  cut short, when a continuation byte is missing, when the number has a shorter
  encoding, is a surrogate or is beyond \<open>U+10FFFF\<close>.
\<close>

definition is_cont :: "byte \<Rightarrow> bool" where
  "is_cont b = (0x80 \<le> unat b \<and> unat b < 0xC0)"

fun utf8_decode :: "byte list \<Rightarrow> pystr option" where
  "utf8_decode [] = Some []"
| "utf8_decode (b0 # bs) =
     (if unat b0 < 0x80 then map_option (\<lambda>r. unat b0 # r) (utf8_decode bs)
      else if 0xC0 \<le> unat b0 \<and> unat b0 < 0xE0 then
        (case bs of
           b1 # r1 \<Rightarrow>
             if is_cont b1 \<and> 0x80 \<le> (unat b0 - 0xC0) * 0x40 + (unat b1 - 0x80)
             then map_option (\<lambda>r. ((unat b0 - 0xC0) * 0x40 + (unat b1 - 0x80)) # r)
                    (utf8_decode r1)
             else None
         | _ \<Rightarrow> None)
      else if 0xE0 \<le> unat b0 \<and> unat b0 < 0xF0 then
        (case bs of
           b1 # b2 # r2 \<Rightarrow>
             if is_cont b1 \<and> is_cont b2
                \<and> 0x800 \<le> (unat b0 - 0xE0) * 0x1000 + (unat b1 - 0x80) * 0x40 + (unat b2 - 0x80)
                \<and> \<not> (0xD800 \<le> (unat b0 - 0xE0) * 0x1000 + (unat b1 - 0x80) * 0x40 + (unat b2 - 0x80)
                     \<and> (unat b0 - 0xE0) * 0x1000 + (unat b1 - 0x80) * 0x40 + (unat b2 - 0x80) \<le> 0xDFFF)
             then map_option
                    (\<lambda>r. ((unat b0 - 0xE0) * 0x1000 + (unat b1 - 0x80) * 0x40 + (unat b2 - 0x80)) # r)
                    (utf8_decode r2)
             else None
         | _ \<Rightarrow> None)
      else if 0xF0 \<le> unat b0 \<and> unat b0 < 0xF8 then
        (case bs of
           b1 # b2 # b3 # r3 \<Rightarrow>
             if is_cont b1 \<and> is_cont b2 \<and> is_cont b3
                \<and> 0x10000 \<le> (unat b0 - 0xF0) * 0x40000 + (unat b1 - 0x80) * 0x1000
                                + (unat b2 - 0x80) * 0x40 + (unat b3 - 0x80)
                \<and> (unat b0 - 0xF0) * 0x40000 + (unat b1 - 0x80) * 0x1000
                      + (unat b2 - 0x80) * 0x40 + (unat b3 - 0x80) < 0x110000
             then map_option
                    (\<lambda>r. ((unat b0 - 0xF0) * 0x40000 + (unat b1 - 0x80) * 0x1000
                            + (unat b2 - 0x80) * 0x40 + (unat b3 - 0x80)) # r)
                    (utf8_decode r3)
             else None
         | _ \<Rightarrow> None)
      else None)"

section \<open>json.dumps of the header\<close>

text \<open>
  \<open>json.dumps(header, ensure_ascii=False)\<close> for the header that \<open>write_huff_file\<close>
  builds: a dict with the key \<open>codes\<close>, a dict from str to str, and the key \<open>padding\<close>, an
  int that is not negative. Items are separated by \<open>", "\<close>, key and value by \<open>": "\<close>. In a
  string the quote, the backslash and the characters below \<open>0x20\<close> are escaped, and
  nothing else.
\<close>

definition hex_char :: "nat \<Rightarrow> nat" where
  "hex_char d = (if d < 10 then 48 + d else 87 + d)"

definition escape_char :: "nat \<Rightarrow> pystr" where
  "escape_char c =
     (if c = 92 then [92, 92]
      else if c = 34 then [92, 34]
      else if c = 8 then [92, 98]
      else if c = 12 then [92, 102]
      else if c = 10 then [92, 110]
      else if c = 13 then [92, 114]
      else if c = 9 then [92, 116]
      else if c < 32 then [92, 117, 48, 48, hex_char (c div 16), hex_char (c mod 16)]
      else [c])"

definition encode_basestring :: "pystr \<Rightarrow> pystr" where
  "encode_basestring s = [34] @ concat (map escape_char s) @ [34]"

fun join :: "pystr \<Rightarrow> pystr list \<Rightarrow> pystr" where
  "join sep [] = []"
| "join sep [x] = x"
| "join sep (x # y # ys) = x @ sep @ join sep (y # ys)"

function dumps_nat :: "nat \<Rightarrow> pystr" where
  "dumps_nat n = (if n < 10 then [48 + n] else dumps_nat (n div 10) @ [48 + n mod 10])"
  by pat_completeness auto
termination
  by (relation "measure id") auto

declare dumps_nat.simps [simp del]

definition dumps_codes :: "(pystr, pystr) dict \<Rightarrow> pystr" where
  "dumps_codes codes =
     str ''{''
     @ join (str '', '')
         (map (\<lambda>(k, v). encode_basestring k @ str '': '' @ encode_basestring v) codes)
     @ str ''}''"

definition json_dumps_header :: "(pystr, pystr) dict \<Rightarrow> nat \<Rightarrow> pystr" where
  "json_dumps_header codes padding =
     str ''{'' @ encode_basestring (str ''codes'') @ str '': '' @ dumps_codes codes
     @ str '', '' @ encode_basestring (str ''padding'') @ str '': '' @ dumps_nat padding
     @ str ''}''"

section \<open>json.loads\<close>

text \<open>
  The scanner of the \<open>json\<close> module on a \<open>str\<close>. Every failure is a JSONDecodeError, here
  \<open>None\<close>. Characters are written by their numbers: 34 is the quote, 92 the backslash,
  117 \<open>u\<close>, 123 and 125 the braces, 91 and 93 the brackets, 58 the colon, 44 the comma,
  45 the minus sign, 46 the point.
\<close>

definition is_ws :: "nat \<Rightarrow> bool" where
  "is_ws c = (c = 32 \<or> c = 9 \<or> c = 10 \<or> c = 13)"

definition skip_ws :: "pystr \<Rightarrow> pystr" where
  "skip_ws s = dropWhile is_ws s"

definition hex_digit :: "nat \<Rightarrow> nat option" where
  "hex_digit c =
     (if 48 \<le> c \<and> c \<le> 57 then Some (c - 48)
      else if 97 \<le> c \<and> c \<le> 102 then Some (c - 87)
      else if 65 \<le> c \<and> c \<le> 70 then Some (c - 55)
      else None)"

definition hex4 :: "nat \<Rightarrow> nat \<Rightarrow> nat \<Rightarrow> nat \<Rightarrow> nat option" where
  "hex4 a b c d =
     (case (hex_digit a, hex_digit b, hex_digit c, hex_digit d) of
        (Some x, Some y, Some z, Some w) \<Rightarrow> Some (((x * 16 + y) * 16 + z) * 16 + w)
      | _ \<Rightarrow> None)"

text \<open>The character after a backslash, other than \<open>u\<close>.\<close>

definition unescape :: "nat \<Rightarrow> nat option" where
  "unescape e =
     (if e = 34 then Some 34
      else if e = 92 then Some 92
      else if e = 47 then Some 47
      else if e = 98 then Some 8
      else if e = 102 then Some 12
      else if e = 110 then Some 10
      else if e = 114 then Some 13
      else if e = 116 then Some 9
      else None)"

text \<open>
  \<open>scanstring\<close>, from the character after the opening quote, in strict mode: a control
  character in the string is an error. A \<open>\\uXXXX\<close> escape of a high surrogate that is
  followed by the escape of a low surrogate gives the one character of the pair.
\<close>

fun scanstring :: "pystr \<Rightarrow> pystr \<Rightarrow> (pystr \<times> pystr) option" where
  "scanstring [] acc = None"
| "scanstring (c # s) acc =
     (if c = 34 then Some (acc, s)
      else if c = 92 then
        (case s of
           [] \<Rightarrow> None
         | e # s1 \<Rightarrow>
             if e = 117 then
               (case s1 of
                  h1 # h2 # h3 # h4 # s2 \<Rightarrow>
                    (case hex4 h1 h2 h3 h4 of
                       None \<Rightarrow> None
                     | Some u \<Rightarrow>
                         if 0xD800 \<le> u \<and> u \<le> 0xDBFF then
                           (case s2 of
                              b # v # k1 # k2 # k3 # k4 # s3 \<Rightarrow>
                                if b = 92 \<and> v = 117 then
                                  (case hex4 k1 k2 k3 k4 of
                                     None \<Rightarrow> None
                                   | Some u2 \<Rightarrow>
                                       if 0xDC00 \<le> u2 \<and> u2 \<le> 0xDFFF
                                       then scanstring s3
                                              (acc @ [0x10000 + (u - 0xD800) * 0x400 + (u2 - 0xDC00)])
                                       else scanstring s2 (acc @ [u]))
                                else scanstring s2 (acc @ [u])
                            | _ \<Rightarrow> scanstring s2 (acc @ [u]))
                         else scanstring s2 (acc @ [u]))
                | _ \<Rightarrow> None)
             else
               (case unescape e of
                  None \<Rightarrow> None
                | Some ch \<Rightarrow> scanstring s1 (acc @ [ch])))
      else if c < 32 then None
      else scanstring s (acc @ [c]))"

text \<open>
  A number: \<open>-?(0|[1-9][0-9]*)\<close>, then an optional fraction \<open>\\.[0-9]+\<close> and an optional
  exponent \<open>[eE][-+]?[0-9]+\<close>; with neither it is an int, otherwise a float.
\<close>

definition is_digit :: "nat \<Rightarrow> bool" where
  "is_digit c = (48 \<le> c \<and> c \<le> 57)"

definition digits_val :: "pystr \<Rightarrow> nat" where
  "digits_val ds = foldl (\<lambda>acc c. 10 * acc + (c - 48)) 0 ds"

definition scan_int_part :: "pystr \<Rightarrow> (pystr \<times> pystr) option" where
  "scan_int_part s =
     (case s of
        [] \<Rightarrow> None
      | c # r \<Rightarrow>
          if c = 48 then Some ([48], r)
          else if is_digit c then Some (c # takeWhile is_digit r, dropWhile is_digit r)
          else None)"

definition scan_frac :: "pystr \<Rightarrow> (pystr \<times> pystr) option" where
  "scan_frac s =
     (case s of
        c # d # r \<Rightarrow>
          if c = 46 \<and> is_digit d
          then Some (d # takeWhile is_digit r, dropWhile is_digit r)
          else None
      | _ \<Rightarrow> None)"

definition scan_exp :: "pystr \<Rightarrow> (int \<times> pystr) option" where
  "scan_exp s =
     (case s of
        [] \<Rightarrow> None
      | c # r \<Rightarrow>
          if c = 101 \<or> c = 69 then
            (case r of
               [] \<Rightarrow> None
             | g # r1 \<Rightarrow>
                 if g = 45 \<or> g = 43 then
                   (case r1 of
                      [] \<Rightarrow> None
                    | d # r2 \<Rightarrow>
                        if is_digit d
                        then Some ((if g = 45 then - 1 else 1)
                                     * int (digits_val (d # takeWhile is_digit r2)),
                                   dropWhile is_digit r2)
                        else None)
                 else if is_digit g
                 then Some (int (digits_val (g # takeWhile is_digit r1)), dropWhile is_digit r1)
                 else None)
          else None)"

definition match_number :: "pystr \<Rightarrow> (json \<times> pystr) option" where
  "match_number s =
     (let neg = (s \<noteq> [] \<and> hd s = 45);
          s0 = (if neg then tl s else s)
      in case scan_int_part s0 of
           None \<Rightarrow> None
         | Some (ip, s1) \<Rightarrow>
             (case scan_frac s1 of
                None \<Rightarrow>
                  (case scan_exp s1 of
                     None \<Rightarrow> Some (JInt ((if neg then - 1 else 1) * int (digits_val ip)), s1)
                   | Some (ex, s3) \<Rightarrow>
                       Some (JFloat (Decimal neg (digits_val ip) ex), s3))
              | Some (fp, s2) \<Rightarrow>
                  (case scan_exp s2 of
                     None \<Rightarrow>
                       Some (JFloat (Decimal neg (digits_val (ip @ fp)) (- int (length fp))), s2)
                   | Some (ex, s3) \<Rightarrow>
                       Some (JFloat (Decimal neg (digits_val (ip @ fp)) (ex - int (length fp))),
                             s3))))"

text \<open>
  \<open>scan_once\<close> with the loops of \<open>JSONObject\<close> and \<open>JSONArray\<close>. The first argument bounds
  the number of nested calls; each call comes after at least one character has been
  read, so \<open>json_loads\<close> starts with more than the length of the text and the bound is
  never reached. An object becomes a dict: a repeated key keeps its first position and
  takes the last value.
\<close>

fun scan_once :: "nat \<Rightarrow> pystr \<Rightarrow> (json \<times> pystr) option"
  and parse_members ::
    "nat \<Rightarrow> pystr \<Rightarrow> (pystr \<times> json) list \<Rightarrow> ((pystr \<times> json) list \<times> pystr) option"
  and parse_elements :: "nat \<Rightarrow> pystr \<Rightarrow> json list \<Rightarrow> (json list \<times> pystr) option"
where
  "scan_once 0 s = None"
| "scan_once (Suc n) [] = None"
| "scan_once (Suc n) (c # r) =
     (if c = 34 then
        (case scanstring r [] of None \<Rightarrow> None | Some (x, r1) \<Rightarrow> Some (JStr x, r1))
      else if c = 123 then
        (case skip_ws r of
           [] \<Rightarrow> None
         | d # r1 \<Rightarrow>
             if d = 125 then Some (JObj [], r1)
             else (case parse_members n (d # r1) [] of
                     None \<Rightarrow> None
                   | Some (items, r2) \<Rightarrow> Some (JObj items, r2)))
      else if c = 91 then
        (case skip_ws r of
           [] \<Rightarrow> None
         | d # r1 \<Rightarrow>
             if d = 93 then Some (JArr [], r1)
             else (case parse_elements n (d # r1) [] of
                     None \<Rightarrow> None
                   | Some (xs, r2) \<Rightarrow> Some (JArr xs, r2)))
      else if take 4 (c # r) = str ''null'' then Some (JNull, drop 4 (c # r))
      else if take 4 (c # r) = str ''true'' then Some (JBool True, drop 4 (c # r))
      else if take 5 (c # r) = str ''false'' then Some (JBool False, drop 5 (c # r))
      else if take 3 (c # r) = str ''NaN'' then Some (JFloat NaN, drop 3 (c # r))
      else if take 8 (c # r) = str ''Infinity''
        then Some (JFloat (Infinity False), drop 8 (c # r))
      else if take 9 (c # r) = str ''-Infinity''
        then Some (JFloat (Infinity True), drop 9 (c # r))
      else match_number (c # r))"
| "parse_members 0 s items = None"
| "parse_members (Suc n) [] items = None"
| "parse_members (Suc n) (c # r) items =
     (if c \<noteq> 34 then None
      else
        (case scanstring r [] of
           None \<Rightarrow> None
         | Some (key, r1) \<Rightarrow>
             (case skip_ws r1 of
                [] \<Rightarrow> None
              | d # r2 \<Rightarrow>
                  if d \<noteq> 58 then None
                  else
                    (case scan_once n (skip_ws r2) of
                       None \<Rightarrow> None
                     | Some (v, r3) \<Rightarrow>
                         (case skip_ws r3 of
                            [] \<Rightarrow> None
                          | e # r4 \<Rightarrow>
                              if e = 125 then Some (AList.update key v items, r4)
                              else if e = 44
                                then parse_members n (skip_ws r4) (AList.update key v items)
                              else None)))))"
| "parse_elements 0 s xs = None"
| "parse_elements (Suc n) s xs =
     (case scan_once n s of
        None \<Rightarrow> None
      | Some (v, r1) \<Rightarrow>
          (case skip_ws r1 of
             [] \<Rightarrow> None
           | e # r2 \<Rightarrow>
               if e = 93 then Some (xs @ [v], r2)
               else if e = 44 then parse_elements n (skip_ws r2) (xs @ [v])
               else None))"

text \<open>
  \<open>json.loads(s)\<close> for a \<open>str\<close>: a byte order mark at the start is refused; blanks are
  allowed around the one value, and nothing else after it.
\<close>

definition json_loads :: "pystr \<Rightarrow> error + json" where
  "json_loads s =
     (if s \<noteq> [] \<and> hd s = 0xFEFF then Inl JSONDecodeError
      else
        (case scan_once (Suc (length s)) (skip_ws s) of
           None \<Rightarrow> Inl JSONDecodeError
         | Some (v, r) \<Rightarrow> if skip_ws r = [] then Inr v else Inl JSONDecodeError))"

section \<open>write_huff_file and read_huff_file\<close>

text \<open>
  A file is the list of its bytes. \<open>header_len.to_bytes(4, byteorder='big')\<close> raises
  OverflowError when the length does not fit in four bytes.
\<close>

definition to_bytes4 :: "nat \<Rightarrow> error + byte list" where
  "to_bytes4 n =
     (if n < 0x100000000
      then Inr [of_nat (n div 0x1000000), of_nat (n div 0x10000 mod 0x100),
                of_nat (n div 0x100 mod 0x100), of_nat (n mod 0x100)]
      else Inl OverflowError)"

definition from_bytes :: "byte list \<Rightarrow> nat" where
  "from_bytes bs = foldl (\<lambda>acc b. 256 * acc + unat b) 0 bs"

definition write_huff_file :: "(pystr, pystr) dict \<Rightarrow> byte list \<Rightarrow> nat \<Rightarrow> error + byte list" where
  "write_huff_file codes payload_bytes padding =
     (case utf8_encode (json_dumps_header codes padding) of
        Inl e \<Rightarrow> Inl e
      | Inr header_json \<Rightarrow>
          (case to_bytes4 (length header_json) of
             Inl e \<Rightarrow> Inl e
           | Inr header_len_bytes \<Rightarrow> Inr (header_len_bytes @ header_json @ payload_bytes)))"

text \<open>
  \<open>f.read(n)\<close> returns the bytes that are left when fewer than \<open>n\<close> are: a header length
  beyond the end of the file is not an error by itself.
\<close>

definition read_huff_file :: "byte list \<Rightarrow> error + (json \<times> byte list)" where
  "read_huff_file infile =
     (let header_len_bytes = take 4 infile in
      if length header_len_bytes < 4
      then Inl (ValueError ''Not a valid .huff file (missing header length)'')
      else
        (let header_len = from_bytes header_len_bytes;
             header_json = take header_len (drop 4 infile)
         in case utf8_decode header_json of
              None \<Rightarrow> Inl UnicodeDecodeError
            | Some s \<Rightarrow>
                (case json_loads s of
                   Inl e \<Rightarrow> Inl e
                 | Inr header \<Rightarrow> Inr (header, drop header_len (drop 4 infile)))))"

section \<open>compress_file and decompress_file\<close>

text \<open>
  \<open>compress_file\<close> from the text read from the input file to the bytes written to the
  output file; the report it prints is left out, but for \<open>text.encode('utf-8')\<close>, which
  can raise. \<open>ident\<close> gives the identities of the nodes, see \<open>build_huffman_tree\<close>.
\<close>

definition compress_file :: "(nat \<Rightarrow> nat) \<Rightarrow> pystr \<Rightarrow> error + byte list" where
  "compress_file ident text =
     (case build_huffman_tree ident (build_frequency_map text) of
        Inl e \<Rightarrow> Inl e
      | Inr root \<Rightarrow>
          (let codes = generate_codes root in
           case encode_text text codes of
             Inl e \<Rightarrow> Inl e
           | Inr bitstring \<Rightarrow>
               (case bits_to_bytes bitstring of
                  Inl e \<Rightarrow> Inl e
                | Inr (payload_bytes, padding) \<Rightarrow>
                    (case write_huff_file codes payload_bytes padding of
                       Inl e \<Rightarrow> Inl e
                     | Inr outfile \<Rightarrow>
                         (case utf8_encode text of
                            Inl e \<Rightarrow> Inl e
                          | Inr orig \<Rightarrow> Inr outfile)))))"

text \<open>
  \<open>header['codes']\<close> raises KeyError on a dict without the key and TypeError on any
  other value; \<open>header.get('padding', 0)\<close> is 0 when the key is missing. The result is the
  text written to the output file, which is encoded as UTF-8.
\<close>

definition decompress_file :: "byte list \<Rightarrow> error + pystr" where
  "decompress_file infile =
     (case read_huff_file infile of
        Inl e \<Rightarrow> Inl e
      | Inr (header, payload) \<Rightarrow>
          (case header of
             JObj items \<Rightarrow>
               (case map_of items (str ''codes'') of
                  None \<Rightarrow> Inl (KeyError (str ''codes''))
                | Some codes \<Rightarrow>
                    (let padding = (case map_of items (str ''padding'') of
                                      None \<Rightarrow> JInt 0 | Some p \<Rightarrow> p);
                         bits = bytes_to_bits payload
                     in case decode_bits_to_text bits codes padding of
                          Inl e \<Rightarrow> Inl e
                        | Inr text \<Rightarrow>
                            (case utf8_encode text of
                               Inl e \<Rightarrow> Inl e
                             | Inr out \<Rightarrow> Inr text)))
           | _ \<Rightarrow> Inl TypeError))"

section \<open>Properties of build_frequency_map\<close>

abbreviation get0 :: "(pystr, int) dict \<Rightarrow> pystr \<Rightarrow> int" where
  "get0 fm k \<equiv> (case map_of fm k of None \<Rightarrow> 0 | Some n \<Rightarrow> n)"

lemma distinct_build_frequency_map_loop:
  "distinct (map fst fm) \<Longrightarrow> distinct (map fst (build_frequency_map_loop text fm))"
  by (induction "text" arbitrary: fm) (simp_all add: distinct_update)

lemma map_of_build_frequency_map_loop:
  "map_of (build_frequency_map_loop text fm) k =
     (if k \<in> (\<lambda>c. [c]) ` set text
      then Some (get0 fm k + int (count_list (map (\<lambda>c. [c]) text) k))
      else map_of fm k)"
proof (induction "text" arbitrary: fm)
  case Nil
  show ?case by simp
next
  case (Cons ch rest)
  show ?case
    by (simp add: Cons.IH update_conv' image_iff split: option.splits)
qed

lemma sum_list_update_incr:
  "sum_list (map snd (AList.update k (get0 fm k + 1) fm)) = sum_list (map snd fm) + 1"
  by (induction fm) auto

lemma sum_list_build_frequency_map_loop:
  "sum_list (map snd (build_frequency_map_loop text fm)) =
     sum_list (map snd fm) + int (length text)"
  by (induction "text" arbitrary: fm) (simp_all add: sum_list_update_incr)

lemma map_of_build_frequency_map:
  "map_of (build_frequency_map text) k =
     (if k \<in> (\<lambda>c. [c]) ` set text
      then Some (int (count_list (map (\<lambda>c. [c]) text) k)) else None)"
  by (simp add: build_frequency_map_def map_of_build_frequency_map_loop)

lemma keys_build_frequency_map:
  "set (map fst (build_frequency_map text)) = (\<lambda>c. [c]) ` set text"
proof -
  have "set (map fst (build_frequency_map text)) = dom (map_of (build_frequency_map text))"
    by (simp add: dom_map_of_conv_image_fst)
  also have "\<dots> = (\<lambda>c. [c]) ` set text"
    by (auto simp: dom_def map_of_build_frequency_map)
  finally show ?thesis .
qed

lemma distinct_build_frequency_map: "distinct (map fst (build_frequency_map text))"
  by (simp add: build_frequency_map_def distinct_build_frequency_map_loop)

lemma count_list_mset: "count_list xs x = count (mset xs) x"
  by (induction xs) auto

text \<open>
  Claim C9. For every text, the table of \<open>build_frequency_map\<close> has as keys exactly the
  characters that occur in the text, each once; its counts are non-negative and add up to
  the length of the text; as a mapping it is the same for two texts that are
  permutations of each other; and the empty text gives the empty table.
\<close>

theorem build_frequency_map_table:
  "set (map fst (build_frequency_map text)) = (\<lambda>ch. [ch]) ` set text
   \<and> distinct (map fst (build_frequency_map text))
   \<and> (\<forall>(k, n) \<in> set (build_frequency_map text). 0 \<le> n)
   \<and> sum_list (map snd (build_frequency_map text)) = int (length text)
   \<and> (mset text = mset text' \<longrightarrow>
        map_of (build_frequency_map text) = map_of (build_frequency_map text'))
   \<and> build_frequency_map [] = []"
proof (intro conjI)
  show "set (map fst (build_frequency_map text)) = (\<lambda>ch. [ch]) ` set text"
    by (rule keys_build_frequency_map)
  show "distinct (map fst (build_frequency_map text))"
    by (rule distinct_build_frequency_map)
  show "\<forall>(k, n) \<in> set (build_frequency_map text). 0 \<le> n"
  proof clarify
    fix k n assume "(k, n) \<in> set (build_frequency_map text)"
    then have "map_of (build_frequency_map text) k = Some n"
      using distinct_build_frequency_map by simp
    then show "0 \<le> n"
      by (auto simp: map_of_build_frequency_map split: if_splits)
  qed
  show "sum_list (map snd (build_frequency_map text)) = int (length text)"
    by (simp add: build_frequency_map_def sum_list_build_frequency_map_loop)
  show "mset text = mset text' \<longrightarrow>
        map_of (build_frequency_map text) = map_of (build_frequency_map text')"
  proof
    assume eq: "mset text = mset text'"
    then have "set text = set text'" by (rule mset_eq_setD)
    moreover have "mset (map (\<lambda>c. [c]) text) = mset (map (\<lambda>c. [c]) text')"
      using eq by (metis mset_map)
    ultimately show "map_of (build_frequency_map text) = map_of (build_frequency_map text')"
      by (intro ext) (simp add: map_of_build_frequency_map count_list_mset)
  qed
  show "build_frequency_map [] = []"
    by (simp add: build_frequency_map_def)
qed

theorem build_frequency_map_table_witness:
  "mset (str ''abca'') = mset (str ''aabc'')
   \<and> build_frequency_map (str ''abca'') = [(str ''a'', 2), (str ''b'', 1), (str ''c'', 1)]
   \<and> map_of (build_frequency_map (str ''abca'')) = map_of (build_frequency_map (str ''aabc''))"
proof -
  have m: "mset (str ''abca'') = mset (str ''aabc'')" by simp
  have v: "build_frequency_map (str ''abca'') = [(str ''a'', 2), (str ''b'', 1), (str ''c'', 1)]"
    by (simp add: build_frequency_map_def)
  from build_frequency_map_table[of "str ''abca''" "str ''aabc''"] m v
  show ?thesis by blast
qed

section \<open>Properties of bits_to_bytes and bytes_to_bits\<close>

abbreviation bin_val :: "pystr \<Rightarrow> nat" where
  "bin_val s \<equiv> foldl (\<lambda>acc c. 2 * acc + (c - 48)) 0 s"

abbreviation binary :: "pystr \<Rightarrow> bool" where
  "binary s \<equiv> (\<forall>c \<in> set s. c = 48 \<or> c = 49)"

lemma rev_upt_Suc: "rev [0..<Suc n] = map Suc (rev [0..<n]) @ [0]"
proof -
  have "[0..<Suc n] = 0 # map Suc [0..<n]"
    by (simp add: upt_conv_Cons map_Suc_upt del: upt_Suc)
  then show ?thesis by (simp add: rev_map del: upt_Suc)
qed

lemma bin_val_lt: "binary s \<Longrightarrow> bin_val s < 2 ^ length s"
proof (induction s rule: rev_induct)
  case Nil
  show ?case by simp
next
  case (snoc x xs)
  from snoc.prems have "binary xs" and x: "x = 48 \<or> x = 49" by simp_all
  then have "bin_val xs < 2 ^ length xs" by (intro snoc.IH)
  moreover from x have "x - 48 < 2" by auto
  ultimately show ?case by simp
qed

lemma bin_digits:
  "binary s \<Longrightarrow> map (\<lambda>i. 48 + (bin_val s div 2 ^ i) mod 2) (rev [0..<length s]) = s"
proof (induction s rule: rev_induct)
  case Nil
  show ?case by simp
next
  case (snoc x xs)
  define dx where "dx = x - 48"
  define v where "v = bin_val xs"
  from snoc.prems have "binary xs" and x0: "x = 48 \<or> x = 49" by simp_all
  then have ih: "map (\<lambda>i. 48 + (v div 2 ^ i) mod 2) (rev [0..<length xs]) = xs"
    unfolding v_def by (intro snoc.IH)
  from x0 have x: "dx < 2" "48 + dx = x" unfolding dx_def by auto
  have bv: "bin_val (xs @ [x]) = 2 * v + dx"
    by (simp add: dx_def v_def)
  have d: "(2 * v + dx) div 2 = v" "(2 * v + dx) mod 2 = dx"
    using x(1) by auto
  have s: "\<And>i. (2 * v + dx) div 2 ^ Suc i = v div 2 ^ i"
    using d(1) by (simp add: div_mult2_eq)
  show ?case
    unfolding length_append_singleton rev_upt_Suc bv
    using ih x by (simp add: o_def s del: upt_Suc power_Suc)
qed

lemma rev_upt_8: "rev [0..<8] = [7, 6, 5, 4, 3, 2, 1, 0::nat]"
  by (simp add: upt_rec)

lemma int_base2_chunk:
  assumes len: "length c = 8" and bin: "binary c"
  shows "int_base2 c = Some (bin_val c) \<and> bin_val c < 256
         \<and> format_08b (of_nat (bin_val c)) = c"
proof -
  from len have ne: "c \<noteq> []" by auto
  have lt: "bin_val c < 256" using bin_val_lt[OF bin] len by simp
  have u: "unat (of_nat (bin_val c) :: byte) = bin_val c"
    using lt by (simp add: unat_of_nat)
  have "format_08b (of_nat (bin_val c)) = c"
    unfolding format_08b_def u using bin_digits[OF bin] len by (simp only: rev_upt_8)
  with ne bin lt show ?thesis by (simp add: int_base2_def)
qed

lemma bits_to_bytes_loop_ok:
  "binary s \<Longrightarrow> 8 dvd length s \<Longrightarrow> 8 dvd i \<Longrightarrow>
   \<exists>bs. bits_to_bytes_loop s i = Inr bs \<and> bytes_to_bits bs = drop i s"
proof (induction s i rule: bits_to_bytes_loop.induct)
  case (1 s i)
  show ?case
  proof (cases "i < length s")
    case False
    then show ?thesis by (subst bits_to_bytes_loop.simps) (simp add: bytes_to_bits_def)
  next
    case True
    let ?c = "take 8 (drop i s)"
    from 1(3,4) True have "i + 8 \<le> length s" by (auto simp: dvd_def)
    then have len: "length ?c = 8" by simp
    have bin: "binary ?c" using 1(2) by (meson in_set_dropD in_set_takeD)
    note ch = int_base2_chunk[OF len bin]
    from ch have v: "int_base2 ?c = Some (bin_val ?c)" and lt: "bin_val ?c < 256"
      and fmt: "format_08b (of_nat (bin_val ?c)) = ?c" by simp_all
    have "8 dvd i + 8" using 1(4) by simp
    from 1(1)[OF True v lt 1(2) 1(3) this]
    obtain bs where bs: "bits_to_bytes_loop s (i + 8) = Inr bs" "bytes_to_bits bs = drop (i + 8) s"
      by blast
    have "bits_to_bytes_loop s i = Inr (of_nat (bin_val ?c) # bs)"
      using True v lt bs(1) by (subst bits_to_bytes_loop.simps) simp
    moreover have "bytes_to_bits (of_nat (bin_val ?c) # bs) = drop i s"
    proof -
      have "bytes_to_bits (of_nat (bin_val ?c) # bs) = ?c @ drop (i + 8) s"
        using fmt bs(2) by (simp add: bytes_to_bits_def)
      also have "\<dots> = drop i s"
        by (metis add.commute append_take_drop_id drop_drop)
      finally show ?thesis .
    qed
    ultimately show ?thesis by blast
  qed
qed

lemma padding_facts:
  fixes n :: nat
  defines "padding \<equiv> (8 - n mod 8) mod 8"
  shows "padding \<le> 7" "8 dvd n + padding"
proof -
  have "padding < 8" unfolding padding_def by (rule mod_less_divisor) simp
  then show "padding \<le> 7" by simp
  define q r where "q = n div 8" and "r = n mod 8"
  have n: "n = 8 * q + r" and r: "r < 8" by (simp_all add: q_def r_def)
  show "8 dvd n + padding"
  proof (cases "r = 0")
    case True
    then have "padding = 0" by (simp add: padding_def r_def[symmetric])
    with n True show ?thesis by simp
  next
    case False
    with r have "padding = 8 - r" by (simp add: padding_def r_def[symmetric])
    with n r have "n + padding = 8 * (q + 1)" by simp
    then show ?thesis by (metis dvd_triv_left)
  qed
qed

text \<open>
  Claim C6. For every bitstring (a string of the characters \<open>'0'\<close> and \<open>'1'\<close>),
  \<open>bits_to_bytes\<close> returns bytes and a padding count between 0 and 7, and removing the
  last \<open>padding\<close> bits from \<open>bytes_to_bits\<close> of the bytes, the way
  \<open>decode_bits_to_text\<close> removes them, gives the bitstring back.
\<close>

theorem bits_to_bytes_padding_roundtrip:
  assumes "\<forall>c \<in> set bitstring. c = 48 \<or> c = 49"
  shows "\<exists>b padding. bits_to_bytes bitstring = Inr (b, padding) \<and> padding \<le> 7
           \<and> strip_padding (bytes_to_bits b) (JInt (int padding)) = Inr bitstring"
proof -
  define padding where "padding = (8 - length bitstring mod 8) mod 8"
  define padded where "padded = bitstring @ replicate padding 48"
  have p: "padding \<le> 7" "8 dvd length bitstring + padding"
    unfolding padding_def by (rule padding_facts)+
  have "binary padded" using assms by (auto simp: padded_def)
  moreover have "8 dvd length padded" using p(2) by (simp add: padded_def)
  ultimately obtain b where b: "bits_to_bytes_loop padded 0 = Inr b" "bytes_to_bits b = padded"
    using bits_to_bytes_loop_ok[of padded 0] by auto
  have r: "bits_to_bytes bitstring = Inr (b, padding)"
    using b(1) by (simp add: bits_to_bytes_def Let_def padding_def padded_def)
  have "strip_padding padded (JInt (int padding)) = Inr bitstring"
    by (simp add: strip_padding_def slice_to_def padded_def)
  with r p(1) b(2) show ?thesis by simp
qed

theorem bits_to_bytes_padding_roundtrip_witness:
  "bits_to_bytes (str ''10110'') = Inr ([176], 3)
   \<and> strip_padding (bytes_to_bits [176]) (JInt 3) = Inr (str ''10110'')"
proof -
  have h: "\<forall>c \<in> set (str ''10110''). c = 48 \<or> c = 49" by simp
  have v: "bits_to_bytes (str ''10110'') = Inr ([176], 3)"
    by code_simp
  from bits_to_bytes_padding_roundtrip[OF h] v show ?thesis by simp
qed

section \<open>Properties of build_huffman_tree and generate_codes\<close>

text \<open>
  The trees that \<open>build_huffman_tree\<close> makes: a leaf has a symbol and no child, an inner
  node has no symbol and two children. \<open>paths\<close> lists the leaves from left to right, each
  with its symbol and the path to it (\<open>'0'\<close> left, \<open>'1'\<close> right).
\<close>

fun wf_tree :: "node \<Rightarrow> bool" where
  "wf_tree (Node i f (Some s) None None) = True"
| "wf_tree (Node i f None (Some a) (Some b)) = (wf_tree a \<and> wf_tree b)"
| "wf_tree (Node i f s l r) = False"

fun paths :: "node \<Rightarrow> (pystr \<times> pystr) list" where
  "paths (Node i f (Some s) None None) = [(s, [])]"
| "paths (Node i f None (Some a) (Some b)) =
     map (\<lambda>(s, p). (s, 48 # p)) (paths a) @ map (\<lambda>(s, p). (s, 49 # p)) (paths b)"
| "paths (Node i f s l r) = []"

definition syms :: "node \<Rightarrow> pystr list" where
  "syms t = map fst (paths t)"

definition is_leaf :: "node \<Rightarrow> bool" where
  "is_leaf t = (left t = None \<and> right t = None)"

lemma syms_simps [simp]:
  "syms (Node i f (Some s) None None) = [s]"
  "syms (Node i f None (Some a) (Some b)) = syms a @ syms b"
  by (simp_all add: syms_def comp_def case_prod_unfold)

lemma update_fresh: "k \<notin> fst ` set al \<Longrightarrow> AList.update k v al = al @ [(k, v)]"
  by (induction al) auto

lemma dfs_wf:
  "wf_tree t \<Longrightarrow> distinct (syms t) \<Longrightarrow> fst ` set codes \<inter> set (syms t) = {} \<Longrightarrow>
   path \<noteq> [] \<or> \<not> is_leaf t \<Longrightarrow>
   dfs (Some t) path codes = codes @ map (\<lambda>(s, p). (s, path @ p)) (paths t)"
proof (induction t arbitrary: path codes rule: wf_tree.induct)
  case (1 i f s)
  then show ?case by (auto simp: update_fresh is_leaf_def)
next
  case (2 i f a b)
  let ?c1 = "codes @ map (\<lambda>(s, p). (s, (path @ [48]) @ p)) (paths a)"
  from 2(3,4,5) have l: "dfs (Some a) (path @ [48]) codes = ?c1"
    by (intro 2(1)) auto
  have "fst ` set ?c1 = fst ` set codes \<union> set (syms a)"
    by (auto simp: syms_def image_Un image_image case_prod_unfold)
  with 2(3,4,5) have r: "dfs (Some b) (path @ [49]) ?c1 =
      ?c1 @ map (\<lambda>(s, p). (s, (path @ [49]) @ p)) (paths b)"
    by (intro 2(2)) auto
  show ?case using l r by (simp add: case_prod_unfold comp_def)
qed simp_all

lemma paths_prefix:
  "wf_tree t \<Longrightarrow> (s1, p1) \<in> set (paths t) \<Longrightarrow> (s2, p2) \<in> set (paths t) \<Longrightarrow>
   prefix p1 p2 \<Longrightarrow> s1 = s2 \<and> p1 = p2"
proof (induction t arbitrary: p1 p2 rule: wf_tree.induct)
  case (2 i f a b)
  then show ?case by (auto simp: case_prod_unfold)
qed simp_all


definition forest_syms :: "node list \<Rightarrow> pystr multiset" where
  "forest_syms heap = sum_mset (image_mset (\<lambda>t. mset (syms t)) (mset heap))"

lemma forest_syms_Nil [simp]: "forest_syms [] = {#}"
  by (simp add: forest_syms_def)

lemma forest_syms_heappush [simp]:
  "forest_syms (heappush lt heap x) = mset (syms x) + forest_syms heap"
  by (simp add: forest_syms_def)

lemma forest_syms_heappop:
  "heappop lt heap = Some (a, heap') \<Longrightarrow> forest_syms heap = mset (syms a) + forest_syms heap'"
  by (simp add: forest_syms_def mset_heappop)

lemma set_heappush [simp]: "set (heappush lt heap x) = insert x (set heap)"
proof -
  have "set_mset (mset (heappush lt heap x)) = insert x (set heap)" by simp
  then show ?thesis by (simp only: set_mset_mset)
qed

lemma set_heappop:
  assumes "heappop lt heap = Some (a, heap')"
  shows "set heap = insert a (set heap')"
proof -
  have "set_mset (mset heap) = set_mset (add_mset a (mset heap'))"
    using mset_heappop[OF assms] by simp
  then show ?thesis by simp
qed

definition merged :: "node list \<Rightarrow> bool" where
  "merged heap = (length heap > 1 \<or> (\<exists>t \<in> set heap. \<not> is_leaf t))"

lemma push_leaves_inv:
  "push_leaves ident items heap n = (heap', n') \<Longrightarrow> \<forall>t \<in> set heap. wf_tree t \<Longrightarrow>
   (\<forall>t \<in> set heap'. wf_tree t) \<and> forest_syms heap' = forest_syms heap + mset (map fst items)
   \<and> length heap' = length heap + length items \<and> n' = n + length items"
proof (induction items arbitrary: heap n)
  case Nil
  then show ?case by simp
next
  case (Cons it items)
  obtain symb f where it: "it = (symb, f)" by (cases it)
  let ?h = "heappush node_lt heap (Node (ident n) f (Some symb) None None)"
  from Cons.prems(1) have "push_leaves ident items ?h (Suc n) = (heap', n')"
    by (simp add: it)
  moreover have "\<forall>t \<in> set ?h. wf_tree t" using Cons.prems(2) by simp
  ultimately have "(\<forall>t \<in> set heap'. wf_tree t)
     \<and> forest_syms heap' = forest_syms ?h + mset (map fst items)
     \<and> length heap' = length ?h + length items \<and> n' = Suc n + length items"
    by (rule Cons.IH)
  then show ?case by (simp add: it)
qed

lemma merge_loop_inv:
  "heap \<noteq> [] \<Longrightarrow> \<forall>t \<in> set heap. wf_tree t \<Longrightarrow>
   \<exists>root. merge_loop ident heap n = Inr [root] \<and> wf_tree root
     \<and> mset (syms root) = forest_syms heap \<and> (merged heap \<longrightarrow> \<not> is_leaf root)"
proof (induction ident heap n rule: merge_loop.induct)
  case (1 ident heap n)
  show ?case
  proof (cases "length heap > 1")
    case False
    with 1(2) obtain root where h: "heap = [root]"
      by (cases heap) auto
    have "merge_loop ident heap n = Inr [root]"
      by (subst merge_loop.simps) (simp add: h)
    then show ?thesis using 1(3) by (simp add: h forest_syms_def merged_def)
  next
    case True
    then obtain a heap1 where p1: "heappop node_lt heap = Some (a, heap1)"
      by (cases "heappop node_lt heap") auto
    from length_heappop[OF p1] True have "heap1 \<noteq> []" by auto
    then obtain b heap2 where p2: "heappop node_lt heap1 = Some (b, heap2)"
      by (cases "heappop node_lt heap1") auto
    let ?parent = "Node (ident n) (freq a + freq b) None (Some a) (Some b)"
    let ?h = "heappush node_lt heap2 ?parent"
    have s: "set heap = insert a (insert b (set heap2))"
      using set_heappop[OF p1] set_heappop[OF p2] by simp
    have wf: "\<forall>t \<in> set ?h. wf_tree t" using 1(3) s by simp
    have "?h \<noteq> []" by (metis length_heappush list.size(3) nat.distinct(1))
    from 1(1)[OF True p1 refl p2 refl this wf]
    obtain root where r: "merge_loop ident ?h (Suc n) = Inr [root]" "wf_tree root"
      "mset (syms root) = forest_syms ?h" "merged ?h \<longrightarrow> \<not> is_leaf root"
      by blast
    have "merge_loop ident heap n = Inr [root]"
      using True p1 p2 r(1) by (subst merge_loop.simps) simp
    moreover have "forest_syms ?h = forest_syms heap"
      using forest_syms_heappop[OF p1] forest_syms_heappop[OF p2] by simp
    moreover have "merged ?h" by (simp add: merged_def is_leaf_def)
    ultimately show ?thesis using r by auto
  qed
qed

lemma build_huffman_tree_root:
  assumes "freq_map \<noteq> []"
  shows "\<exists>root. build_huffman_tree ident freq_map = Inr (Some root) \<and> wf_tree root
     \<and> \<not> is_leaf root
     \<and> mset (syms root) =
         mset (map fst freq_map) + (if length freq_map = 1 then {#[]#} else {#})"
proof -
  obtain heap n where pl: "push_leaves ident freq_map [] 0 = (heap, n)"
    by (cases "push_leaves ident freq_map [] 0")
  from push_leaves_inv[OF pl] have wf: "\<forall>t \<in> set heap. wf_tree t"
    and fs: "forest_syms heap = mset (map fst freq_map)"
    and len: "length heap = length freq_map" by simp_all
  show ?thesis
  proof (cases "length heap = 1")
    case True
    then obtain sole heap1 where p: "heappop node_lt heap = Some (sole, heap1)"
      by (cases "heappop node_lt heap") auto
    from length_heappop[OF p] True have h1: "heap1 = []" by simp
    let ?parent = "Node (ident (Suc n)) (freq sole) None (Some sole)
                     (Some (Node (ident n) 0 (Some []) None None))"
    let ?h = "heappush node_lt heap1 ?parent"
    have "wf_tree sole" using wf set_heappop[OF p] by simp
    then have wf2: "\<forall>t \<in> set ?h. wf_tree t" by (simp add: h1)
    have ne: "?h \<noteq> []" by (metis length_heappush list.size(3) nat.distinct(1))
    from merge_loop_inv[OF ne wf2, of ident "Suc (Suc n)"]
    obtain root where r: "merge_loop ident ?h (Suc (Suc n)) = Inr [root]" "wf_tree root"
      "mset (syms root) = forest_syms ?h" "merged ?h \<longrightarrow> \<not> is_leaf root"
      by blast
    have "merged ?h" by (simp add: merged_def is_leaf_def)
    moreover have "forest_syms ?h = mset (map fst freq_map) + {#[]#}"
      using forest_syms_heappop[OF p] fs by (simp add: h1)
    moreover have "build_huffman_tree ident freq_map = Inr (Some root)"
      using True p r(1) by (simp add: build_huffman_tree_def pl)
    ultimately show ?thesis using r True len by auto
  next
    case False
    with assms len have gt: "length heap > 1" by (cases heap) auto
    then have ne: "heap \<noteq> []" by auto
    from merge_loop_inv[OF ne wf, of ident n]
    obtain root where r: "merge_loop ident heap n = Inr [root]" "wf_tree root"
      "mset (syms root) = forest_syms heap" "merged heap \<longrightarrow> \<not> is_leaf root"
      by blast
    have "build_huffman_tree ident freq_map = Inr (Some root)"
      using False r(1) by (simp add: build_huffman_tree_def pl)
    then show ?thesis using r gt fs False len by (auto simp: merged_def)
  qed
qed

lemma generate_codes_paths:
  assumes "wf_tree root" "\<not> is_leaf root" "distinct (syms root)"
  shows "generate_codes (Some root) = paths root"
  using dfs_wf[OF assms(1,3), of "[]" "[]"] assms(2)
  by (simp add: generate_codes_def case_prod_unfold)


lemma build_huffman_tree_empty_key:
  "build_huffman_tree ident [([], f)] =
     Inr (Some (Node (ident 2) f None (Some (Node (ident 0) f (Some []) None None))
                  (Some (Node (ident 1) 0 (Some []) None None))))"
  by (simp add: build_huffman_tree_def heappush_def heappop_def siftdown_def
      siftdown_loop.simps merge_loop.simps numeral_2_eq_2)

lemma prefix_free_paths:
  assumes "wf_tree root" "\<not> is_leaf root" "distinct (syms root)"
    and "map_of (generate_codes (Some root)) a = Some ca"
    and "map_of (generate_codes (Some root)) b = Some cb" and "a \<noteq> b"
  shows "\<not> prefix ca cb"
proof
  assume "prefix ca cb"
  moreover from assms have "(a, ca) \<in> set (paths root)" "(b, cb) \<in> set (paths root)"
    by (auto simp: generate_codes_paths dest: map_of_SomeD)
  ultimately show False using paths_prefix[OF assms(1)] assms(6) by blast
qed

text \<open>
  Claim C3. For every non-empty frequency table (a dict, so its keys are distinct) and
  whatever the identities of the nodes, \<open>build_huffman_tree\<close> returns a tree, and in the
  code table that \<open>generate_codes\<close> makes from it the code of a symbol is never a prefix
  of the code of another symbol.
\<close>

theorem generate_codes_prefix_free:
  assumes "freq_map \<noteq> []" and "distinct (map fst freq_map)"
  shows "\<exists>root. build_huffman_tree ident freq_map = Inr (Some root) \<and>
           (\<forall>a b ca cb. a \<noteq> b \<longrightarrow>
              map_of (generate_codes (Some root)) a = Some ca \<longrightarrow>
              map_of (generate_codes (Some root)) b = Some cb \<longrightarrow> \<not> prefix ca cb)"
proof (cases "\<exists>f. freq_map = [([], f)]")
  case True
  then obtain f where fm: "freq_map = [([], f)]" by blast
  show ?thesis
    unfolding fm build_huffman_tree_empty_key
    by (simp add: generate_codes_def)
next
  case False
  from build_huffman_tree_root[OF assms(1), of ident]
  obtain root where r: "build_huffman_tree ident freq_map = Inr (Some root)" "wf_tree root"
    "\<not> is_leaf root"
    "mset (syms root) = mset (map fst freq_map) + (if length freq_map = 1 then {#[]#} else {#})"
    by blast
  have "distinct (syms root)"
  proof (cases "length freq_map = 1")
    case True
    then obtain k f where fm: "freq_map = [(k, f)]"
      by (cases freq_map) auto
    with False have "k \<noteq> []" by simp
    moreover from r(4) fm have "mset (syms root) = mset [k, []]" by simp
    ultimately show ?thesis by (metis distinct_length_2_or_more distinct_singleton mset_eq_imp_distinct_iff)
  next
    case False
    with r(4) have "mset (syms root) = mset (map fst freq_map)" by simp
    with assms(2) show ?thesis by (metis mset_eq_imp_distinct_iff)
  qed
  with r show ?thesis using prefix_free_paths by blast
qed

theorem generate_codes_prefix_free_witness:
  "build_huffman_tree (\<lambda>n. n) [(str ''a'', 2), (str ''b'', 1), (str ''c'', 1)] =
     Inr (Some (Node 4 4 None (Some (Node 0 2 (Some (str ''a'')) None None))
       (Some (Node 3 2 None (Some (Node 1 1 (Some (str ''b'')) None None))
          (Some (Node 2 1 (Some (str ''c'')) None None))))))
   \<and> generate_codes (Some (Node 4 4 None (Some (Node 0 2 (Some (str ''a'')) None None))
       (Some (Node 3 2 None (Some (Node 1 1 (Some (str ''b'')) None None))
          (Some (Node 2 1 (Some (str ''c'')) None None)))))) =
       [(str ''a'', str ''0''), (str ''b'', str ''10''), (str ''c'', str ''11'')]
   \<and> \<not> prefix (str ''10'') (str ''11'')"
proof -
  let ?fm = "[(str ''a'', 2), (str ''b'', 1), (str ''c'', 1)] :: (pystr, int) dict"
  let ?t = "Node 4 4 None (Some (Node 0 2 (Some (str ''a'')) None None))
       (Some (Node 3 2 None (Some (Node 1 1 (Some (str ''b'')) None None))
          (Some (Node 2 1 (Some (str ''c'')) None None))))"
  have v: "build_huffman_tree (\<lambda>n. n) ?fm = Inr (Some ?t)" by code_simp
  have c: "generate_codes (Some ?t) =
       [(str ''a'', str ''0''), (str ''b'', str ''10''), (str ''c'', str ''11'')]"
    by code_simp
  have h: "?fm \<noteq> []" "distinct (map fst ?fm)" by simp_all
  from generate_codes_prefix_free[OF h, of "\<lambda>n. n"]
  obtain root where r: "build_huffman_tree (\<lambda>n. n) ?fm = Inr (Some root)"
    and pf: "\<And>a b ca cb. a \<noteq> b \<Longrightarrow> map_of (generate_codes (Some root)) a = Some ca \<Longrightarrow>
              map_of (generate_codes (Some root)) b = Some cb \<Longrightarrow> \<not> prefix ca cb"
    by blast
  from r v have root: "root = ?t" by simp
  have m: "map_of (generate_codes (Some ?t)) (str ''b'') = Some (str ''10'')"
    "map_of (generate_codes (Some ?t)) (str ''c'') = Some (str ''11'')"
    unfolding c by simp_all
  have "str ''b'' \<noteq> str ''c''" by simp
  then have "\<not> prefix (str ''10'') (str ''11'')"
    using m by (rule pf[unfolded root])
  with v c show ?thesis by simp
qed

section \<open>The one-symbol case\<close>

lemma build_huffman_tree_single:
  "build_huffman_tree ident [(k, f)] =
     Inr (Some (Node (ident 2) f None (Some (Node (ident 0) f (Some k) None None))
                  (Some (Node (ident 1) 0 (Some []) None None))))"
  by (simp add: build_huffman_tree_def heappush_def heappop_def siftdown_def
      siftdown_loop.simps merge_loop.simps numeral_2_eq_2)

lemma build_frequency_map_replicate:
  "n > 0 \<Longrightarrow> build_frequency_map_loop (replicate n c) fm =
     AList.update [c] ((case map_of fm [c] of None \<Rightarrow> 0 | Some m \<Rightarrow> m) + int n) fm"
proof (induction n arbitrary: fm)
  case 0
  then show ?case by simp
next
  case (Suc n)
  show ?case
  proof (cases "n = 0")
    case True
    then show ?thesis by simp
  next
    case False
    then show ?thesis by (simp add: Suc.IH update_conv' ac_simps)
  qed
qed

text \<open>
  Claim C5, what the code does. For a text of one repeated character the code table has
  two entries: the character with code \<open>'0'\<close> and the empty string, the symbol of the
  dummy leaf \<open>Node(0, symbol="")\<close>, with code \<open>'1'\<close>. The dummy's symbol is not \<open>None\<close>,
  so \<open>generate_codes\<close> records it.
\<close>

theorem single_symbol_code_table:
  "build_frequency_map (replicate (Suc n) c) = [([c], 1 + int n)]
   \<and> (\<exists>root. build_huffman_tree ident (build_frequency_map (replicate (Suc n) c)) =
          Inr (Some root)
        \<and> generate_codes (Some root) = [([c], str ''0''), ([], str ''1'')])
   \<and> build_frequency_map (str ''aaaa'') = [(str ''a'', 4)]"
proof -
  have fm: "build_frequency_map (replicate (Suc n) c) = [([c], 1 + int n)]"
    unfolding build_frequency_map_def
    by (subst build_frequency_map_replicate) simp_all
  have "build_frequency_map (str ''aaaa'') = [(str ''a'', 4)]"
    by (simp add: build_frequency_map_def)
  moreover have "generate_codes (Some (Node (ident 2) (1 + int n) None
        (Some (Node (ident 0) (1 + int n) (Some [c]) None None))
        (Some (Node (ident 1) 0 (Some []) None None)))) = [([c], str ''0''), ([], str ''1'')]"
    by (simp add: generate_codes_def)
  ultimately show ?thesis
    unfolding fm build_huffman_tree_single by simp
qed

section \<open>Tie-breaking by object identity\<close>

text \<open>
  Two nodes are alike when they differ in identities only: \<open>erase\<close> forgets the
  identities of a tree.
\<close>

fun erase :: "node \<Rightarrow> node" where
  "erase (Node i f s l r) = Node 0 f s (map_option erase l) (map_option erase r)"

lemma dfs_erase: "dfs (map_option erase t) path codes = dfs t path codes"
proof (induction t path codes rule: dfs.induct)
  case (1 path codes)
  show ?case by simp
next
  case (2 i f s l r path codes)
  show ?case
  proof (cases "s \<noteq> None \<and> l = None \<and> r = None")
    case True
    then show ?thesis by simp
  next
    case False
    with 2 show ?thesis by auto
  qed
qed

lemma generate_codes_erase:
  "map_option erase t = map_option erase t' \<Longrightarrow> generate_codes t = generate_codes t'"
  unfolding generate_codes_def by (metis dfs_erase)

lemma freq_erase: "erase a = erase b \<Longrightarrow> freq a = freq b"
  by (cases a; cases b) simp


subsection \<open>The heap operations on alike heaps\<close>

lemma siftdown_loop_rel:
  "(\<And>a a' b b'. R a a' \<Longrightarrow> R b b' \<Longrightarrow> lt a b = lt' a' b') \<Longrightarrow>
   list_all2 R h h' \<Longrightarrow> R x x' \<Longrightarrow> pos < length h \<Longrightarrow>
   list_all2 R (siftdown_loop lt h x s pos) (siftdown_loop lt' h' x' s pos)"
proof (induction lt h x s pos arbitrary: h' rule: siftdown_loop.induct)
  case (1 lt h x s pos)
  note agree = "1.prems"(1) and hh = "1.prems"(2) and xx = "1.prems"(3) and pl = "1.prems"(4)
  show ?case
  proof (cases "pos > s")
    case False
    then show ?thesis
      using hh xx
      by (simp add: siftdown_loop.simps[of _ _ _ s pos] list_all2_update_cong)
  next
    case True
    let ?pp = "(pos - 1) div 2"
    have pp: "?pp < length h" using pl by simp
    have Rp: "R (h ! ?pp) (h' ! ?pp)" using hh pp by (rule list_all2_nthD)
    have c: "lt x (h ! ?pp) = lt' x' (h' ! ?pp)" using xx Rp by (rule agree)
    show ?thesis
    proof (cases "lt x (h ! ?pp)")
      case False
      then show ?thesis
        using True c hh xx
        by (simp add: siftdown_loop.simps[of _ _ _ s pos] list_all2_update_cong)
    next
      case lt: True
      have "list_all2 R (h[pos := h ! ?pp]) (h'[pos := h' ! ?pp])"
        using hh Rp by (simp add: list_all2_update_cong)
      then have "list_all2 R (siftdown_loop lt (h[pos := h ! ?pp]) x s ?pp)
           (siftdown_loop lt' (h'[pos := h' ! ?pp]) x' s ?pp)"
        using xx pp agree by (intro "1.IH"[OF True lt]) simp_all
      then show ?thesis
        using True lt c by (simp add: siftdown_loop.simps[of _ _ _ s pos])
    qed
  qed
qed

lemma siftdown_rel:
  assumes agree: "\<And>a a' b b'. R a a' \<Longrightarrow> R b b' \<Longrightarrow> lt a b = lt' a' b'"
    and hh: "list_all2 R h h'" and pl: "pos < length h"
  shows "list_all2 R (siftdown lt h s pos) (siftdown lt' h' s pos)"
proof -
  have "R (h ! pos) (h' ! pos)" using hh pl by (rule list_all2_nthD)
  with agree hh show ?thesis
    unfolding siftdown_def using pl by (intro siftdown_loop_rel) blast+
qed

lemma siftup_loop_rel:
  "(\<And>a a' b b'. R a a' \<Longrightarrow> R b b' \<Longrightarrow> lt a b = lt' a' b') \<Longrightarrow>
   list_all2 R h h' \<Longrightarrow> endpos = length h \<Longrightarrow> pos < length h \<Longrightarrow>
   list_all2 R (fst (siftup_loop lt h endpos pos cp)) (fst (siftup_loop lt' h' endpos pos cp))
   \<and> snd (siftup_loop lt h endpos pos cp) = snd (siftup_loop lt' h' endpos pos cp)
   \<and> snd (siftup_loop lt h endpos pos cp) < length h"
proof (induction lt h endpos pos cp arbitrary: h' rule: siftup_loop.induct)
  case (1 lt h endpos pos cp)
  note agree = "1.prems"(1) and hh = "1.prems"(2) and el = "1.prems"(3) and pl = "1.prems"(4)
  note unf = siftup_loop.simps[of lt h endpos pos cp] siftup_loop.simps[of lt' h' endpos pos cp]
  show ?case
  proof (cases "cp < endpos")
    case False
    then show ?thesis using hh pl by (simp add: unf)
  next
    case cpe: True
    then have cpl: "cp < length h" using el by simp
    have Rc: "R (h ! cp) (h' ! cp)" using hh cpl by (rule list_all2_nthD)
    have r0: "list_all2 R (h[pos := h ! cp]) (h'[pos := h' ! cp])"
      using hh Rc by (simp add: list_all2_update_cong)
    show ?thesis
    proof (cases "cp + 1 < endpos \<and> \<not> lt (h ! cp) (h ! (cp + 1))")
      case False
      have ih: "list_all2 R (fst (siftup_loop lt (h[pos := h ! cp]) endpos cp (2 * cp + 1)))
              (fst (siftup_loop lt' (h'[pos := h' ! cp]) endpos cp (2 * cp + 1)))
         \<and> snd (siftup_loop lt (h[pos := h ! cp]) endpos cp (2 * cp + 1))
           = snd (siftup_loop lt' (h'[pos := h' ! cp]) endpos cp (2 * cp + 1))
         \<and> snd (siftup_loop lt (h[pos := h ! cp]) endpos cp (2 * cp + 1))
           < length (h[pos := h ! cp])"
        using r0 el cpl agree by (intro "1.IH"(2)[OF cpe False]) simp_all
      have c: "\<not> (cp + 1 < endpos \<and> \<not> lt' (h' ! cp) (h' ! (cp + 1)))"
      proof (cases "cp + 1 < endpos")
        case True
        then have "R (h ! (cp + 1)) (h' ! (cp + 1))"
          using el by (intro list_all2_nthD[OF hh]) simp
        from agree[OF Rc this] False True show ?thesis by simp
      next
        case False
        then show ?thesis by simp
      qed
      have "siftup_loop lt h endpos pos cp
            = siftup_loop lt (h[pos := h ! cp]) endpos cp (2 * cp + 1)"
        using cpe False by (subst unf(1)) auto
      moreover have "siftup_loop lt' h' endpos pos cp
            = siftup_loop lt' (h'[pos := h' ! cp]) endpos cp (2 * cp + 1)"
        using cpe c by (subst unf(2)) auto
      ultimately show ?thesis using ih by simp
    next
      case True
      then have c1l: "cp + 1 < length h" using el by simp
      have Rc1: "R (h ! (cp + 1)) (h' ! (cp + 1))" using hh c1l by (rule list_all2_nthD)
      have c: "cp + 1 < endpos \<and> \<not> lt' (h' ! cp) (h' ! (cp + 1))"
        using agree[OF Rc Rc1] True by simp
      have r: "list_all2 R (h[pos := h ! (cp + 1)]) (h'[pos := h' ! (cp + 1)])"
        using hh Rc1 by (simp add: list_all2_update_cong)
      have ih: "list_all2 R
              (fst (siftup_loop lt (h[pos := h ! (cp + 1)]) endpos (cp + 1) (2 * (cp + 1) + 1)))
              (fst (siftup_loop lt' (h'[pos := h' ! (cp + 1)]) endpos (cp + 1) (2 * (cp + 1) + 1)))
         \<and> snd (siftup_loop lt (h[pos := h ! (cp + 1)]) endpos (cp + 1) (2 * (cp + 1) + 1))
           = snd (siftup_loop lt' (h'[pos := h' ! (cp + 1)]) endpos (cp + 1) (2 * (cp + 1) + 1))
         \<and> snd (siftup_loop lt (h[pos := h ! (cp + 1)]) endpos (cp + 1) (2 * (cp + 1) + 1))
           < length (h[pos := h ! (cp + 1)])"
        using r el c1l agree by (intro "1.IH"(1)[OF cpe True]) simp_all
      have "siftup_loop lt h endpos pos cp
            = siftup_loop lt (h[pos := h ! (cp + 1)]) endpos (cp + 1) (2 * (cp + 1) + 1)"
        using cpe True by (subst unf(1)) simp
      moreover have "siftup_loop lt' h' endpos pos cp
            = siftup_loop lt' (h'[pos := h' ! (cp + 1)]) endpos (cp + 1) (2 * (cp + 1) + 1)"
        using cpe c by (subst unf(2)) simp
      ultimately show ?thesis using ih by simp
    qed
  qed
qed


lemma siftup_rel:
  assumes agree: "\<And>a a' b b'. R a a' \<Longrightarrow> R b b' \<Longrightarrow> lt a b = lt' a' b'"
    and hh: "list_all2 R h h'" and pl: "pos < length h"
  shows "list_all2 R (siftup lt h pos) (siftup lt' h' pos)"
proof -
  obtain h1 p1 where e1: "siftup_loop lt h (length h) pos (2 * pos + 1) = (h1, p1)"
    by (cases "siftup_loop lt h (length h) pos (2 * pos + 1)")
  obtain h2 p2 where e2: "siftup_loop lt' h' (length h') pos (2 * pos + 1) = (h2, p2)"
    by (cases "siftup_loop lt' h' (length h') pos (2 * pos + 1)")
  have len: "length h' = length h" using hh by (simp add: list_all2_lengthD)
  from siftup_loop_rel[of R lt lt' h h' "length h" pos "2 * pos + 1"] agree hh pl
  have r: "list_all2 R h1 h2" "p1 = p2" "p1 < length h"
    unfolding e1 e2[unfolded len] by auto
  from siftup_loop_inv[OF e1 refl pl] have l1: "length h1 = length h" by simp
  have "R (h ! pos) (h' ! pos)" using hh pl by (rule list_all2_nthD)
  then have "list_all2 R (h1[p1 := h ! pos]) (h2[p1 := h' ! pos])"
    using r(1) by (simp add: list_all2_update_cong)
  then have "list_all2 R (siftdown lt (h1[p1 := h ! pos]) pos p1)
      (siftdown lt' (h2[p1 := h' ! pos]) pos p1)"
    using r(3) l1 agree by (intro siftdown_rel) simp_all
  moreover have "siftup lt h pos = siftdown lt (h1[p1 := h ! pos]) pos p1"
    unfolding siftup_def e1 by simp
  moreover have "siftup lt' h' pos = siftdown lt' (h2[p1 := h' ! pos]) pos p1"
    unfolding siftup_def e2 r(2) by simp
  ultimately show ?thesis by simp
qed

lemma heappush_rel:
  assumes "\<And>a a' b b'. R a a' \<Longrightarrow> R b b' \<Longrightarrow> lt a b = lt' a' b'"
    and "list_all2 R h h'" and "R x x'"
  shows "list_all2 R (heappush lt h x) (heappush lt' h' x')"
proof -
  have "list_all2 R (h @ [x]) (h' @ [x'])" using assms(2,3) by (simp add: list_all2_appendI)
  moreover have "length h' = length h" using assms(2) by (simp add: list_all2_lengthD)
  ultimately show ?thesis
    unfolding heappush_def using assms(1) by (simp add: siftdown_rel)
qed

lemma heappop_rel:
  assumes agree: "\<And>a a' b b'. R a a' \<Longrightarrow> R b b' \<Longrightarrow> lt a b = lt' a' b'"
    and hh: "list_all2 R h h'"
  shows "rel_option (rel_prod R (list_all2 R)) (heappop lt h) (heappop lt' h')"
proof (cases h rule: rev_cases)
  case Nil
  with hh show ?thesis by (simp add: heappop_def)
next
  case (snoc ys y)
  with hh obtain ys' y' where h': "h' = ys' @ [y']" and r: "list_all2 R ys ys'" "R y y'"
    by (auto simp: list_all2_append1 list_all2_Cons1)
  show ?thesis
  proof (cases ys)
    case Nil
    with r snoc h' show ?thesis by (simp add: heappop_def)
  next
    case (Cons b bs)
    with r(1) obtain b' bs' where ys': "ys' = b' # bs'" and rb: "R b b'" "list_all2 R bs bs'"
      by (auto simp: list_all2_Cons1)
    have "list_all2 R (y # bs) (y' # bs')" using r(2) rb(2) by simp
    then have "list_all2 R (siftup lt (y # bs) 0) (siftup lt' (y' # bs') 0)"
      using agree by (intro siftup_rel) simp_all
    then show ?thesis
      unfolding snoc h' heappop_snoc using Cons ys' rb(1) by simp
  qed
qed

subsection \<open>Two runs with the identities in the same order\<close>

definition alike :: "nat \<Rightarrow> (nat \<Rightarrow> nat) \<Rightarrow> (nat \<Rightarrow> nat) \<Rightarrow> node \<Rightarrow> node \<Rightarrow> bool" where
  "alike m ident1 ident2 a a' =
     (erase a = erase a' \<and> (\<exists>k < m. nid a = ident1 k \<and> nid a' = ident2 k))"

lemma alike_node_lt:
  assumes ord: "\<forall>i < m. \<forall>j < m. (ident1 i < ident1 j) = (ident2 i < ident2 j)"
    and "alike m ident1 ident2 a a'" and "alike m ident1 ident2 b b'"
  shows "node_lt a b = node_lt a' b'"
proof -
  from assms(2,3) obtain i j where i: "i < m" "nid a = ident1 i" "nid a' = ident2 i"
    and j: "j < m" "nid b = ident1 j" "nid b' = ident2 j"
    by (auto simp: alike_def)
  have "freq a = freq a'" "freq b = freq b'"
    using assms(2,3) by (auto simp: alike_def dest: freq_erase)
  moreover have "(nid a < nid b) = (nid a' < nid b')" using ord i j by simp
  ultimately show ?thesis by (simp add: node_lt_def)
qed

lemma push_leaves_rel:
  assumes ord: "\<forall>i < m. \<forall>j < m. (ident1 i < ident1 j) = (ident2 i < ident2 j)"
  shows "list_all2 (alike m ident1 ident2) heap heap' \<Longrightarrow> n + length items \<le> m \<Longrightarrow>
         list_all2 (alike m ident1 ident2) (fst (push_leaves ident1 items heap n))
           (fst (push_leaves ident2 items heap' n))
         \<and> snd (push_leaves ident1 items heap n) = snd (push_leaves ident2 items heap' n)"
proof (induction items arbitrary: heap heap' n)
  case Nil
  then show ?case by simp
next
  case (Cons it items)
  obtain symb f where it: "it = (symb, f)" by (cases it)
  have "alike m ident1 ident2 (Node (ident1 n) f (Some symb) None None)
      (Node (ident2 n) f (Some symb) None None)"
  proof -
    have "n < m" using Cons.prems(2) by simp
    then show ?thesis unfolding alike_def by auto
  qed
  then have "list_all2 (alike m ident1 ident2)
      (heappush node_lt heap (Node (ident1 n) f (Some symb) None None))
      (heappush node_lt heap' (Node (ident2 n) f (Some symb) None None))"
    using Cons.prems(1) alike_node_lt[OF ord] by (intro heappush_rel) blast+
  then show ?case using Cons.prems(2) by (simp add: it Cons.IH)
qed

lemma merge_loop_rel:
  "\<forall>i < m. \<forall>j < m. (ident1 i < ident1 j) = (ident2 i < ident2 j) \<Longrightarrow>
   list_all2 (alike m ident1 ident2) heap heap' \<Longrightarrow> n + (length heap - 1) \<le> m \<Longrightarrow>
   rel_sum (=) (list_all2 (alike m ident1 ident2))
     (merge_loop ident1 heap n) (merge_loop ident2 heap' n)"
proof (induction ident1 heap n arbitrary: heap' rule: merge_loop.induct)
  case (1 ident1 heap n)
  note ord = "1.prems"(1) and hh = "1.prems"(2) and nm = "1.prems"(3)
  note agree = alike_node_lt[OF ord]
  have len: "length heap' = length heap" using hh by (simp add: list_all2_lengthD)
  show ?case
  proof (cases "length heap > 1")
    case False
    then show ?thesis using hh len
      by (simp add: merge_loop.simps[of _ heap n] merge_loop.simps[of _ heap' n])
  next
    case True
    then obtain a heap1 where p1: "heappop node_lt heap = Some (a, heap1)"
      by (cases "heappop node_lt heap") auto
    from length_heappop[OF p1] True have "heap1 \<noteq> []" by auto
    then obtain b heap2 where p2: "heappop node_lt heap1 = Some (b, heap2)"
      by (cases "heappop node_lt heap1") auto
    have l2: "length heap = Suc (Suc (length heap2))"
      using length_heappop[OF p1] length_heappop[OF p2] by simp
    from heappop_rel[of "alike m ident1 ident2" node_lt node_lt heap heap'] agree hh p1
    obtain a' heap1' where p1': "heappop node_lt heap' = Some (a', heap1')"
      and ra: "alike m ident1 ident2 a a'" "list_all2 (alike m ident1 ident2) heap1 heap1'"
      by (auto simp: option_rel_Some1)
    from heappop_rel[of "alike m ident1 ident2" node_lt node_lt heap1 heap1'] agree ra(2) p2
    obtain b' heap2' where p2': "heappop node_lt heap1' = Some (b', heap2')"
      and rb: "alike m ident1 ident2 b b'" "list_all2 (alike m ident1 ident2) heap2 heap2'"
      by (auto simp: option_rel_Some1)
    let ?p = "Node (ident1 n) (freq a + freq b) None (Some a) (Some b)"
    let ?p' = "Node (ident2 n) (freq a' + freq b') None (Some a') (Some b')"
    have "n < m" using nm True by simp
    moreover have "erase ?p = erase ?p'"
    proof -
      have "erase a = erase a'" "erase b = erase b'" using ra(1) rb(1) by (simp_all add: alike_def)
      then show ?thesis using freq_erase[of a a'] freq_erase[of b b'] by simp
    qed
    ultimately have "alike m ident1 ident2 ?p ?p'"
      unfolding alike_def by auto
    then have hp: "list_all2 (alike m ident1 ident2) (heappush node_lt heap2 ?p)
        (heappush node_lt heap2' ?p')"
      using rb(2) agree by (intro heappush_rel) blast+
    have "rel_sum (=) (list_all2 (alike m ident1 ident2))
        (merge_loop ident1 (heappush node_lt heap2 ?p) (Suc n))
        (merge_loop ident2 (heappush node_lt heap2' ?p') (Suc n))"
      using ord hp nm l2 by (intro "1.IH"[OF True p1 refl p2 refl]) simp_all
    then show ?thesis
      using True len p1 p2 p1' p2'
      by (simp add: merge_loop.simps[of _ heap n] merge_loop.simps[of _ heap' n])
  qed
qed


lemma push_leaves_length:
  "push_leaves ident items heap n = (heap', n') \<Longrightarrow>
   length heap' = length heap + length items \<and> n' = n + length items"
proof (induction items arbitrary: heap n)
  case Nil
  then show ?case by simp
next
  case (Cons it items)
  obtain symb f where it: "it = (symb, f)" by (cases it)
  from Cons.prems have "push_leaves ident items
      (heappush node_lt heap (Node (ident n) f (Some symb) None None)) (Suc n) = (heap', n')"
    by (simp add: it)
  from Cons.IH[OF this] show ?case by simp
qed

lemma build_huffman_tree_rel:
  assumes ord: "\<forall>i < 2 * length freq_map + 1. \<forall>j < 2 * length freq_map + 1.
                  (ident1 i < ident1 j) = (ident2 i < ident2 j)"
  shows "rel_sum (=) (rel_option (alike (2 * length freq_map + 1) ident1 ident2))
           (build_huffman_tree ident1 freq_map) (build_huffman_tree ident2 freq_map)"
proof -
  let ?m = "2 * length freq_map + 1"
  let ?R = "alike ?m ident1 ident2"
  note agree = alike_node_lt[OF ord]
  obtain heap n where pl: "push_leaves ident1 freq_map [] 0 = (heap, n)"
    by (cases "push_leaves ident1 freq_map [] 0")
  obtain heap' n' where pl': "push_leaves ident2 freq_map [] 0 = (heap', n')"
    by (cases "push_leaves ident2 freq_map [] 0")
  from push_leaves_rel[OF ord, of "[]" "[]" 0 freq_map]
  have hh: "list_all2 ?R heap heap'" and nn: "n' = n" by (simp_all add: pl pl')
  from push_leaves_length[OF pl] have len: "length heap = length freq_map" "n = length freq_map"
    by simp_all
  have len': "length heap' = length heap" using hh by (simp add: list_all2_lengthD)
  have fin: "rel_sum (=) (rel_option ?R)
       (case r of Inl e \<Rightarrow> Inl e | Inr h3 \<Rightarrow> Inr (if h3 \<noteq> [] then Some (h3 ! 0) else None))
       (case r' of Inl e \<Rightarrow> Inl e | Inr h3 \<Rightarrow> Inr (if h3 \<noteq> [] then Some (h3 ! 0) else None))"
    if "rel_sum (=) (list_all2 ?R) r r'" for r r'
  proof (cases r)
    case (Inl e)
    with that show ?thesis by (cases r') simp_all
  next
    case (Inr h3)
    with that obtain h3' where r': "r' = Inr h3'" and l: "list_all2 ?R h3 h3'"
      by (cases r') simp_all
    show ?thesis
    proof (cases h3)
      case Nil
      with l Inr r' show ?thesis by simp
    next
      case (Cons x xs)
      with l obtain x' xs' where "h3' = x' # xs'" "?R x x'"
        by (auto simp: list_all2_Cons1)
      with Cons Inr r' show ?thesis by simp
    qed
  qed
  show ?thesis
  proof (cases "length heap = 1")
    case True
    then obtain sole heap1 where p: "heappop node_lt heap = Some (sole, heap1)"
      by (cases "heappop node_lt heap") auto
    from heappop_rel[of ?R node_lt node_lt heap heap'] agree hh p
    obtain sole' heap1' where p': "heappop node_lt heap' = Some (sole', heap1')"
      and rs: "?R sole sole'" "list_all2 ?R heap1 heap1'"
      by (auto simp: option_rel_Some1)
    let ?p = "Node (ident1 (Suc n)) (freq sole) None (Some sole)
                (Some (Node (ident1 n) 0 (Some []) None None))"
    let ?p' = "Node (ident2 (Suc n)) (freq sole') None (Some sole')
                (Some (Node (ident2 n) 0 (Some []) None None))"
    have "erase sole = erase sole'" using rs(1) by (simp add: alike_def)
    then have "erase ?p = erase ?p'" using freq_erase[of sole sole'] by simp
    moreover have "Suc n < ?m" using len True by linarith
    ultimately have "?R ?p ?p'" unfolding alike_def by auto
    then have hp: "list_all2 ?R (heappush node_lt heap1 ?p) (heappush node_lt heap1' ?p')"
      using rs(2) agree by (intro heappush_rel) blast+
    have "length (heappush node_lt heap1 ?p) = 1"
      using length_heappop[OF p] True by simp
    then have "Suc (Suc n) + (length (heappush node_lt heap1 ?p) - 1) \<le> ?m"
      using len True by linarith
    then have "rel_sum (=) (list_all2 ?R)
        (merge_loop ident1 (heappush node_lt heap1 ?p) (Suc (Suc n)))
        (merge_loop ident2 (heappush node_lt heap1' ?p') (Suc (Suc n)))"
      by (rule merge_loop_rel[OF ord hp])
    from fin[OF this] show ?thesis
      using True len' p p' by (simp add: build_huffman_tree_def pl pl' nn)
  next
    case False
    have "n + (length heap - 1) \<le> ?m" using len by linarith
    then have "rel_sum (=) (list_all2 ?R) (merge_loop ident1 heap n) (merge_loop ident2 heap' n)"
      by (rule merge_loop_rel[OF ord hh])
    from fin[OF this] show ?thesis
      using False len' by (simp add: build_huffman_tree_def pl pl' nn)
  qed
qed

text \<open>
  Claim C4, what the code does. \<open>Node.__lt__\<close> breaks ties among equal weights by object
  identity, so the code table depends on the identities of the nodes, but only on their
  relative order: two runs of \<open>build_huffman_tree\<close> followed by \<open>generate_codes\<close> on the
  same frequency table, whatever the identities, give the same result (the same error or
  the same code table) whenever the nodes created (at most \<open>2 * len(freq_map) + 1\<close>) have
  their identities in the same order in both runs.
\<close>

theorem code_table_depends_on_identity_order:
  assumes "\<forall>i < 2 * length freq_map + 1. \<forall>j < 2 * length freq_map + 1.
             (ident1 i < ident1 j) = (ident2 i < ident2 j)"
  shows "map_sum id generate_codes (build_huffman_tree ident1 freq_map) =
         map_sum id generate_codes (build_huffman_tree ident2 freq_map)"
proof -
  let ?R = "alike (2 * length freq_map + 1) ident1 ident2"
  have e: "generate_codes t = generate_codes t'" if "rel_option ?R t t'" for t t'
  proof -
    from that have "map_option erase t = map_option erase t'"
      by (cases t; cases t') (simp_all add: alike_def)
    then show ?thesis by (rule generate_codes_erase)
  qed
  from build_huffman_tree_rel[OF assms] show ?thesis
    by (cases "build_huffman_tree ident1 freq_map"; cases "build_huffman_tree ident2 freq_map")
       (simp_all add: e)
qed

theorem code_table_depends_on_identity_order_witness:
  "build_huffman_tree (\<lambda>n. n) [(str ''a'', 1), (str ''b'', 1)] =
     Inr (Some (Node 2 2 None (Some (Node 0 1 (Some (str ''a'')) None None))
                  (Some (Node 1 1 (Some (str ''b'')) None None))))
   \<and> build_huffman_tree (\<lambda>n. 10 * n + 3) [(str ''a'', 1), (str ''b'', 1)] =
     Inr (Some (Node 23 2 None (Some (Node 3 1 (Some (str ''a'')) None None))
                  (Some (Node 13 1 (Some (str ''b'')) None None))))
   \<and> map_sum id generate_codes (build_huffman_tree (\<lambda>n. n) [(str ''a'', 1), (str ''b'', 1)]) =
     map_sum id generate_codes
       (build_huffman_tree (\<lambda>n. 10 * n + 3) [(str ''a'', 1), (str ''b'', 1)])"
proof -
  let ?fm = "[(str ''a'', 1), (str ''b'', 1)] :: (pystr, int) dict"
  have h: "\<forall>i < 2 * length ?fm + 1. \<forall>j < 2 * length ?fm + 1.
             ((\<lambda>n. n) i < (\<lambda>n. n) j) = ((\<lambda>n. 10 * n + 3) i < (\<lambda>n. 10 * n + 3) j)"
    by simp
  have v1: "build_huffman_tree (\<lambda>n. n) ?fm =
     Inr (Some (Node 2 2 None (Some (Node 0 1 (Some (str ''a'')) None None))
                  (Some (Node 1 1 (Some (str ''b'')) None None))))"
    by code_simp
  have v2: "build_huffman_tree (\<lambda>n. 10 * n + 3) ?fm =
     Inr (Some (Node 23 2 None (Some (Node 3 1 (Some (str ''a'')) None None))
                  (Some (Node 13 1 (Some (str ''b'')) None None))))"
    by code_simp
  from code_table_depends_on_identity_order[OF h] v1 v2 show ?thesis by blast
qed

text \<open>
  Two runs on the table of \<open>"ab"\<close> whose nodes get their identities in different orders:
  the leaf with the smaller identity is popped first and becomes the left child, so the
  codes of \<open>a\<close> and \<open>b\<close> are exchanged.
\<close>

theorem tie_break_by_identity_counterexample:
  "map_sum id generate_codes
     (build_huffman_tree (\<lambda>n. n) [(str ''a'', 1), (str ''b'', 1)]) =
     Inr [(str ''a'', str ''0''), (str ''b'', str ''1'')]
   \<and> map_sum id generate_codes
     (build_huffman_tree (\<lambda>n. if n = 0 then 1 else if n = 1 then 0 else n)
        [(str ''a'', 1), (str ''b'', 1)]) =
     Inr [(str ''b'', str ''0''), (str ''a'', str ''1'')]"
  by code_simp

section \<open>The empty text\<close>

lemmas json_eval = json_loads_def skip_ws_def is_ws_def hex4_def hex_digit_def unescape_def
  is_digit_def digits_val_def scan_int_part_def scan_frac_def scan_exp_def match_number_def

lemmas dumps_eval = json_dumps_header_def dumps_codes_def encode_basestring_def
  escape_char_def hex_char_def dumps_nat.simps utf8_encode_char_def to_bytes4_def

text \<open>The container of the empty text: the header \<open>{"codes": {}, "padding": 0}\<close>, 27 bytes.\<close>

abbreviation empty_container :: "byte list" where
  "empty_container \<equiv>
     [0, 0, 0, 27, 123, 34, 99, 111, 100, 101, 115, 34, 58, 32, 123, 125,
      44, 32, 34, 112, 97, 100, 100, 105, 110, 103, 34, 58, 32, 48, 125]"

lemma build_huffman_tree_empty: "build_huffman_tree ident [] = Inr None"
  by (simp add: build_huffman_tree_def merge_loop.simps)

lemma compress_file_empty: "compress_file ident [] = Inr empty_container"
  by (simp add: compress_file_def build_frequency_map_def build_huffman_tree_empty
      generate_codes_def encode_text_def bits_to_bytes_def bits_to_bytes_loop.simps
      write_huff_file_def dumps_eval)

lemma read_huff_file_empty_container:
  "read_huff_file empty_container =
     Inr (JObj [(str ''codes'', JObj []), (str ''padding'', JInt 0)], [])"
proof -
  have "utf8_decode (drop 4 empty_container) =
     Some (str ''{'' @ [34] @ str ''codes'' @ [34] @ str '': {}, '' @ [34] @ str ''padding''
           @ [34] @ str '': 0}'')"
    by simp
  moreover have "json_loads (str ''{'' @ [34] @ str ''codes'' @ [34] @ str '': {}, '' @ [34]
           @ str ''padding'' @ [34] @ str '': 0}'')
     = Inr (JObj [(str ''codes'', JObj []), (str ''padding'', JInt 0)])"
    by (simp add: json_eval)
  ultimately show ?thesis
    by (simp add: read_huff_file_def from_bytes_def)
qed

lemma decompress_file_empty_container: "decompress_file empty_container = Inr []"
  by (simp add: decompress_file_def read_huff_file_empty_container bytes_to_bits_def
      decode_bits_to_text_def strip_padding_def)

text \<open>
  Claim C10. Encoding the empty text succeeds: the container written has the header
  \<open>{"codes": {}, "padding": 0}\<close>, that is an empty code table and padding 0, and no
  payload byte; decoding that container gives the empty text.
\<close>

theorem empty_text_roundtrip:
  "compress_file ident [] = Inr empty_container
   \<and> read_huff_file empty_container =
       Inr (JObj [(str ''codes'', JObj []), (str ''padding'', JInt 0)], [])
   \<and> decompress_file empty_container = Inr []"
  by (simp only: compress_file_empty read_huff_file_empty_container
      decompress_file_empty_container)

text \<open>
  Claim C2, what the code does. On the empty text nothing fails: the frequency table is
  empty, \<open>build_huffman_tree\<close> returns \<open>None\<close> for it (\<open>heap[0] if heap else None\<close>),
  \<open>generate_codes\<close> returns the empty table for \<open>None\<close>, and \<open>compress_file\<close> writes a
  container.
\<close>

theorem empty_text_is_encoded:
  "build_frequency_map [] = []
   \<and> build_huffman_tree ident (build_frequency_map []) = Inr None
   \<and> generate_codes None = []
   \<and> (\<exists>outfile. compress_file ident [] = Inr outfile)"
  by (simp add: build_frequency_map_def build_huffman_tree_empty generate_codes_def
      compress_file_empty)

text \<open>The empty text is encoded without an error.\<close>

theorem empty_input_error_counterexample:
  "compress_file (\<lambda>n. n) [] =
     Inr [0, 0, 0, 27, 123, 34, 99, 111, 100, 101, 115, 34, 58, 32, 123, 125,
          44, 32, 34, 112, 97, 100, 100, 105, 110, 103, 34, 58, 32, 48, 125]"
  by (rule compress_file_empty)

section \<open>Reading a container\<close>

lemmas decode_eval = decompress_file_def read_huff_file_def from_bytes_def bytes_to_bits_def
  format_08b_def decode_bits_to_text_def strip_padding_def slice_to_def









end
